theory Spec2Isabelle
  imports Complex_Main "HOL-Library.Sublist" "HOL-Library.AList"
begin

section \<open>Strings, numbers and containers of the host language\<close>

text \<open>
  The service is TypeScript. A JavaScript string is a sequence of code units; it is modelled
  as \<^typ>\<open>string\<close>, one \<^typ>\<open>char\<close> per code unit, so that \<open>length\<close> is the
  \<^verbatim>\<open>.length\<close> of the source. Offsets are integral JavaScript numbers and are modelled as
  \<^typ>\<open>int\<close>; a confidence score is a finite number of which the code only uses the sign of
  a difference, and is modelled as \<^typ>\<open>rat\<close>. The calls of the logger have no effect on
  the results and are left out.
\<close>

definition digit_char :: "nat \<Rightarrow> char" where
  "digit_char d = ''0123456789'' ! d"

fun show_nat :: "nat \<Rightarrow> string" where
  "show_nat n = (if n < 10 then [digit_char n] else show_nat (n div 10) @ [digit_char (n mod 10)])"

declare show_nat.simps [simp del]

text \<open>The text a template literal gives an integral number: decimal digits, a minus sign first
  when it is negative.\<close>

definition number_toString :: "int \<Rightarrow> string" where
  "number_toString i = (if i < 0 then CHR ''-'' # show_nat (nat (- i)) else show_nat (nat i))"

text \<open>\<^verbatim>\<open>String.prototype.substring(start, end)\<close>: both arguments are clamped to the
  string, and swapped when the first is the larger one.\<close>

definition substring :: "string \<Rightarrow> int \<Rightarrow> int \<Rightarrow> string" where
  "substring s a b =
     (let n = int (length s);
          a' = min (max a 0) n;
          b' = min (max b 0) n;
          lo = min a' b';
          hi = max a' b'
      in take (nat (hi - lo)) (drop (nat lo) s))"

text \<open>\<^verbatim>\<open>String.prototype.includes\<close> and \<^verbatim>\<open>startsWith\<close>.\<close>

fun js_includes :: "string \<Rightarrow> string \<Rightarrow> bool" where
  "js_includes [] p = (p = [])"
| "js_includes (c # cs) p = (prefix p (c # cs) \<or> js_includes cs p)"

definition startsWith :: "string \<Rightarrow> string \<Rightarrow> bool" where
  "startsWith s p = prefix p s"

text \<open>\<^verbatim>\<open>Array.prototype.sort(compare)\<close> is stable: of two elements that the comparator
  does not order, the one that came first stays first. The comparators of this service are
  consistent (each orders by a pair of keys), so that every stable sort gives the result of
  this insertion sort.\<close>

fun insert_by :: "('a \<Rightarrow> 'a \<Rightarrow> rat) \<Rightarrow> 'a \<Rightarrow> 'a list \<Rightarrow> 'a list" where
  "insert_by cmp x [] = [x]"
| "insert_by cmp x (y # ys) = (if cmp x y \<le> 0 then x # y # ys else y # insert_by cmp x ys)"

definition sort_by :: "('a \<Rightarrow> 'a \<Rightarrow> rat) \<Rightarrow> 'a list \<Rightarrow> 'a list" where
  "sort_by cmp xs = foldr (insert_by cmp) xs []"

text \<open>A \<^verbatim>\<open>Map\<close> keeps its keys in insertion order: it is an association list with
  distinct keys. \<^verbatim>\<open>set\<close> on a key that is present keeps the key's place, on a new key it
  appends.\<close>

type_synonym ('k, 'v) js_map = "('k \<times> 'v) list"

definition map_set :: "'k \<Rightarrow> 'v \<Rightarrow> ('k, 'v) js_map \<Rightarrow> ('k, 'v) js_map" where
  "map_set k v m = AList.update k v m"

definition map_get :: "('k, 'v) js_map \<Rightarrow> 'k \<Rightarrow> 'v option" where
  "map_get m k = map_of m k"

definition map_has :: "('k, 'v) js_map \<Rightarrow> 'k \<Rightarrow> bool" where
  "map_has m k = (map_of m k \<noteq> None)"

definition map_delete :: "'k \<Rightarrow> ('k, 'v) js_map \<Rightarrow> ('k, 'v) js_map" where
  "map_delete k m = AList.delete k m"

definition map_keys :: "('k, 'v) js_map \<Rightarrow> 'k list" where
  "map_keys m = map fst m"

definition map_values :: "('k, 'v) js_map \<Rightarrow> 'v list" where
  "map_values m = map snd m"

section \<open>Data model\<close>

text \<open>\<^verbatim>\<open>SensitiveEntity\<close> of the source; its fields \<^verbatim>\<open>start\<close> and \<^verbatim>\<open>end\<close> are
  \<open>start\<close> and \<open>endp\<close> here.\<close>

record SensitiveEntity =
  original :: string
  anonymized :: string
  entityType :: string
  start :: int
  endp :: int

text \<open>One result of the analyzer (\<^verbatim>\<open>entity_type\<close>, \<^verbatim>\<open>start\<close>, \<^verbatim>\<open>end\<close>,
  \<^verbatim>\<open>score\<close>) and one item of the anonymizer (\<^verbatim>\<open>entity_type\<close> and an optional
  \<^verbatim>\<open>text\<close>; its other fields are never read).\<close>

record analyzer_result =
  ar_entity_type :: string
  ar_start :: int
  ar_end :: int
  ar_score :: rat

record anonymizer_item =
  it_entity_type :: string
  it_text :: "string option"

type_synonym entity_table = "(string, SensitiveEntity) js_map"

section \<open>buildEntityMapping\<close>

text \<open>The key of a span: the template literal \<^verbatim>\<open>`${entityType}-${start}-${end}`\<close>.\<close>

definition entity_key :: "string \<Rightarrow> int \<Rightarrow> int \<Rightarrow> string" where
  "entity_key ty s e = ty @ ''-'' @ number_toString s @ ''-'' @ number_toString e"

text \<open>First loop: group the analyzer results by entity type.\<close>

definition group_step ::
  "(string, analyzer_result list) js_map \<Rightarrow> analyzer_result \<Rightarrow> (string, analyzer_result list) js_map" where
  "group_step g r =
     (let entities = (case map_get g (ar_entity_type r) of Some es \<Rightarrow> es | None \<Rightarrow> [])
      in map_set (ar_entity_type r) (entities @ [r]) g)"

definition group_by_type :: "analyzer_result list \<Rightarrow> (string, analyzer_result list) js_map" where
  "group_by_type rs = foldl group_step [] rs"

text \<open>The comparator of the second loop: longer spans first, then higher scores.\<close>

definition span_compare :: "analyzer_result \<Rightarrow> analyzer_result \<Rightarrow> rat" where
  "span_compare a b =
     (let aLength = ar_end a - ar_start a;
          bLength = ar_end b - ar_start b
      in if aLength \<noteq> bLength then of_int (bLength - aLength) else ar_score b - ar_score a)"

definition process_entity ::
  "string \<Rightarrow> (string, analyzer_result) js_map \<Rightarrow> analyzer_result \<Rightarrow> (string, analyzer_result) js_map" where
  "process_entity ty pe entity =
     (let key = entity_key ty (ar_start entity) (ar_end entity)
      in if \<not> map_has pe key then map_set key entity pe else pe)"

definition process_group ::
  "(string, analyzer_result) js_map \<Rightarrow> string \<times> analyzer_result list \<Rightarrow> (string, analyzer_result) js_map" where
  "process_group pe g = foldl (process_entity (fst g)) pe (sort_by span_compare (snd g))"

definition processedEntities :: "analyzer_result list \<Rightarrow> (string, analyzer_result) js_map" where
  "processedEntities rs = foldl process_group [] (group_by_type rs)"

text \<open>Third loop: the placeholder of each entity type among the anonymizer's items. Five types
  have a fixed placeholder; any other type takes the item's \<^verbatim>\<open>text\<close> when that is a
  non-empty string, and its own name in brackets otherwise.\<close>

definition bracketed :: "string \<Rightarrow> string" where
  "bracketed ty = ''['' @ ty @ '']''"

definition item_placeholder :: "anonymizer_item \<Rightarrow> string" where
  "item_placeholder result =
     (let entityType = it_entity_type result in
      if entityType = ''PERSON'' then ''[PERSON]''
      else if entityType = ''PHONE_NUMBER'' then ''[PHONE]''
      else if entityType = ''DATE_TIME'' then ''[DATE_TIME]''
      else if entityType = ''ORGANIZATION'' then ''[ORGANIZATION]''
      else if entityType = ''LOCATION'' then ''[LOCATION]''
      else (case it_text result of
              Some t \<Rightarrow> if t \<noteq> [] then t else bracketed entityType
            | None \<Rightarrow> bracketed entityType))"

definition anonymizedEntities :: "anonymizer_item list \<Rightarrow> (string, string) js_map" where
  "anonymizedEntities items =
     foldl (\<lambda>m result. map_set (it_entity_type result) (item_placeholder result) m) [] items"

text \<open>\<^verbatim>\<open>anonymizedEntities.get(entityType) || `[${entityType}]`\<close>: a missing or empty value
  gives the bracketed name.\<close>

definition anonymizedValue_of :: "(string, string) js_map \<Rightarrow> string \<Rightarrow> string" where
  "anonymizedValue_of ae ty =
     (case map_get ae ty of
        Some v \<Rightarrow> if v \<noteq> [] then v else bracketed ty
      | None \<Rightarrow> bracketed ty)"

text \<open>Fourth loop: one entry for each processed span, but for a \<^verbatim>\<open>PERSON\<close> whose original
  value has fewer than three code units.\<close>

definition add_entity ::
  "string \<Rightarrow> (string, string) js_map \<Rightarrow> entity_table \<Rightarrow> analyzer_result \<Rightarrow> entity_table" where
  "add_entity originalText ae m entity =
     (let ty = ar_entity_type entity;
          s = ar_start entity;
          e = ar_end entity;
          originalValue = substring originalText s e;
          anonymizedValue = anonymizedValue_of ae ty
      in if ty = ''PERSON'' \<and> length originalValue < 3 then m
         else map_set (entity_key ty s e)
                \<lparr>original = originalValue, anonymized = anonymizedValue, entityType = ty,
                 start = s, endp = e\<rparr> m)"

definition add_entities ::
  "string \<Rightarrow> anonymizer_item list \<Rightarrow> analyzer_result list \<Rightarrow> entity_table \<Rightarrow> entity_table" where
  "add_entities originalText anonymizerResults analyzerResults m =
     foldl (add_entity originalText (anonymizedEntities anonymizerResults)) m
       (map_values (processedEntities analyzerResults))"

section \<open>findBestMatch\<close>

text \<open>The first parameter of \<^verbatim>\<open>findBestMatch\<close> in the source, the original text, is
  never read and is left out here. The two comparators differ in the character they look
  for: a value that includes it comes first, then the longer value.\<close>

definition prefer_compare :: "string \<Rightarrow> SensitiveEntity \<Rightarrow> SensitiveEntity \<Rightarrow> rat" where
  "prefer_compare mark a b =
     (let aHas = js_includes (original a) mark;
          bHas = js_includes (original b) mark
      in if aHas \<noteq> bHas then (if bHas then 1 else - 1)
         else of_int (int (length (original b)) - int (length (original a))))"

definition phone_compare :: "SensitiveEntity \<Rightarrow> SensitiveEntity \<Rightarrow> rat" where
  "phone_compare = prefer_compare ''+''"

definition person_compare :: "SensitiveEntity \<Rightarrow> SensitiveEntity \<Rightarrow> rat" where
  "person_compare = prefer_compare '' ''"

text \<open>The common tail of the two branches: delete every key that starts with the type and a
  dash, then set the key \<^verbatim>\<open>`${entityType}-best`\<close> to a copy of the best match.\<close>

definition keep_best :: "string \<Rightarrow> SensitiveEntity \<Rightarrow> entity_table \<Rightarrow> entity_table" where
  "keep_best ty bestMatch m =
     (let cleared = foldl (\<lambda>m' key. map_delete key m') m
                      (filter (\<lambda>key. startsWith key (ty @ ''-'')) (map_keys m))
      in map_set (ty @ ''-best'')
           \<lparr>original = original bestMatch, anonymized = anonymized bestMatch, entityType = ty,
            start = start bestMatch, endp = endp bestMatch\<rparr> cleared)"

definition findBestMatch :: "string \<Rightarrow> entity_table \<Rightarrow> entity_table" where
  "findBestMatch ty m =
     (let entities = filter (\<lambda>e. entityType e = ty) (map_values m)
      in if length entities \<le> 1 then m
         else
           (let m1 = (if ty = ''PHONE_NUMBER''
                      then (case sort_by phone_compare entities of
                              bestMatch # _ \<Rightarrow> keep_best ty bestMatch m | [] \<Rightarrow> m)
                      else m)
            in if ty = ''PERSON''
               then (case sort_by person_compare entities of
                       bestMatch # _ \<Rightarrow> keep_best ty bestMatch m1 | [] \<Rightarrow> m1)
               else m1))"

definition buildEntityMapping ::
  "string \<Rightarrow> anonymizer_item list \<Rightarrow> analyzer_result list \<Rightarrow> entity_table \<Rightarrow> entity_table" where
  "buildEntityMapping originalText anonymizerResults analyzerResults m =
     (if anonymizerResults = [] then m
      else findBestMatch ''PERSON''
             (findBestMatch ''PHONE_NUMBER''
                (add_entities originalText anonymizerResults analyzerResults m)))"

section \<open>deanonymizeText\<close>

text \<open>The characters that \<^verbatim>\<open>/[.*+?^${}()|[\]\\]/g\<close> matches, and the first
  \<^verbatim>\<open>replace\<close> of the loop body, which puts a backslash in front of each of them.\<close>

definition backslash :: char where
  "backslash = CHR 0x5C"

definition regex_syntax_chars :: "char list" where
  "regex_syntax_chars = ''.*+?^${}()|[]'' @ [backslash]"

fun escape_regex :: "string \<Rightarrow> string" where
  "escape_regex [] = []"
| "escape_regex (c # cs) =
     (if c \<in> set regex_syntax_chars then backslash # c # escape_regex cs else c # escape_regex cs)"

text \<open>\<^verbatim>\<open>new RegExp(pattern, 'g')\<close>, for the patterns made of ordinary characters and of
  syntax characters behind a backslash: such a pattern matches one literal string, which
  \<open>regex_literal\<close> returns. A pattern outside this fragment is \<open>None\<close>.\<close>

fun regex_literal :: "string \<Rightarrow> string option" where
  "regex_literal [] = Some []"
| "regex_literal [c] = (if c \<in> set regex_syntax_chars then None else Some [c])"
| "regex_literal (c # d # cs) =
     (if c = backslash
      then (if d \<in> set regex_syntax_chars then map_option (Cons d) (regex_literal cs) else None)
      else if c \<in> set regex_syntax_chars then None
      else map_option (Cons c) (regex_literal (d # cs)))"

text \<open>The replacement text of one match (ECMAScript's GetSubstitution, for a pattern with no
  capture group): in the second argument of \<^verbatim>\<open>replace\<close>, \<^verbatim>\<open>$$\<close> stands for a
  dollar sign, \<^verbatim>\<open>$&\<close> for the matched text, \<^verbatim>\<open>$`\<close> for the text preceding the match and
  \<^verbatim>\<open>$'\<close> for the text following it. A dollar sign before a digit or before \<^verbatim>\<open><\<close> refers
  to a capture group; the escaped pattern has none, so it stands for itself, as every
  other character does.\<close>

fun getSubstitution :: "string \<Rightarrow> string \<Rightarrow> string \<Rightarrow> string \<Rightarrow> string" where
  "getSubstitution matched preceding following [] = []"
| "getSubstitution matched preceding following [c] = [c]"
| "getSubstitution matched preceding following (c # d # t) =
     (if c = CHR ''$'' \<and> d = CHR ''$'' then CHR ''$'' # getSubstitution matched preceding following t
      else if c = CHR ''$'' \<and> d = CHR ''&'' then matched @ getSubstitution matched preceding following t
      else if c = CHR ''$'' \<and> d = CHR 0x60 then preceding @ getSubstitution matched preceding following t
      else if c = CHR ''$'' \<and> d = CHR 0x27 then following @ getSubstitution matched preceding following t
      else c # getSubstitution matched preceding following (d # t))"

text \<open>\<^verbatim>\<open>result.replace(regex, replacement)\<close> with a global literal pattern: the matches
  are found from left to right and do not overlap. \<open>preceding\<close> is the part of the subject
  already passed. The empty pattern matches in front of every code unit and at the end.\<close>

function replace_from :: "string \<Rightarrow> string \<Rightarrow> string \<Rightarrow> string \<Rightarrow> string" where
  "replace_from p r preceding s =
     (if p = [] then
        (case s of
           [] \<Rightarrow> getSubstitution [] preceding [] r
         | c # cs \<Rightarrow> getSubstitution [] preceding s r @ c # replace_from p r (preceding @ [c]) cs)
      else if prefix p s then
        getSubstitution p preceding (drop (length p) s) r
          @ replace_from p r (preceding @ p) (drop (length p) s)
      else
        (case s of
           [] \<Rightarrow> []
         | c # cs \<Rightarrow> c # replace_from p r (preceding @ [c]) cs))"
  by pat_completeness auto
termination
proof (relation "measure (\<lambda>(p, r, preceding, s). length s)")
  fix p r :: string and preceding s :: string
  assume "p \<noteq> []" "prefix p s"
  then have "s \<noteq> []" by auto
  with \<open>p \<noteq> []\<close> show "((p, r, preceding @ p, drop (length p) s), (p, r, preceding, s))
      \<in> measure (\<lambda>(p, r, preceding, s). length s)"
    by simp
qed auto

declare replace_from.simps [simp del]

definition regex_replace_all :: "string \<Rightarrow> string \<Rightarrow> string \<Rightarrow> string option" where
  "regex_replace_all pattern replacement s =
     map_option (\<lambda>lit. replace_from lit replacement [] s) (regex_literal pattern)"

text \<open>The comparator of the sort: longer anonymized values first.\<close>

definition anonymized_compare :: "SensitiveEntity \<Rightarrow> SensitiveEntity \<Rightarrow> rat" where
  "anonymized_compare a b = of_int (int (length (anonymized b)) - int (length (anonymized a)))"

fun restore_all :: "SensitiveEntity list \<Rightarrow> string \<Rightarrow> string option" where
  "restore_all [] result = Some result"
| "restore_all (entity # es) result =
     (case regex_replace_all (escape_regex (anonymized entity)) (original entity) result of
        None \<Rightarrow> None
      | Some result' \<Rightarrow> restore_all es result')"

definition deanonymizeText :: "entity_table \<Rightarrow> string \<Rightarrow> string option" where
  "deanonymizeText m anonymizedText =
     (if m = [] then Some anonymizedText
      else restore_all (sort_by anonymized_compare (map_values m)) anonymizedText)"

definition getSensitiveEntities :: "entity_table \<Rightarrow> SensitiveEntity list" where
  "getSensitiveEntities m = map_values m"

definition clearEntityMapping :: "entity_table \<Rightarrow> entity_table" where
  "clearEntityMapping m = []"

section \<open>anonymizeText\<close>

text \<open>The two remote services are parameters: what the HTTP request gives in the end, an
  \<^verbatim>\<open>AxiosError\<close> or the response's data. They are functions of the request, so the two
  retries of a failed request fail alike. The analyzer's data is an array of results or
  nothing; the anonymizer's data has a \<^verbatim>\<open>text\<close> and may have \<^verbatim>\<open>items\<close>.\<close>

record axios_error =
  err_code :: "string option"
  err_status :: "nat option"

datatype error = HttpException string nat

record anonymizer_response =
  resp_text :: string
  resp_items :: "anonymizer_item list option"

type_synonym analyzer_service = "string \<Rightarrow> string \<Rightarrow> axios_error + analyzer_result list option"
type_synonym anonymizer_service =
  "string \<Rightarrow> string \<Rightarrow> analyzer_result list \<Rightarrow> axios_error + anonymizer_response"

record config =
  PRESIDIO_ANALYZER_URL :: "string option"
  PRESIDIO_ANONYMIZER_URL :: "string option"

text \<open>\<^verbatim>\<open>error.response?.status || HttpStatus.INTERNAL_SERVER_ERROR\<close>.\<close>

definition status_or_500 :: "axios_error \<Rightarrow> nat" where
  "status_or_500 e = (case err_status e of Some n \<Rightarrow> if n \<noteq> 0 then n else 500 | None \<Rightarrow> 500)"

definition analyzeText ::
  "analyzer_service \<Rightarrow> string \<Rightarrow> string \<Rightarrow> error + analyzer_result list option" where
  "analyzeText analyzer text analyzerUrl =
     (case analyzer (analyzerUrl @ ''/analyze'') text of
        Inr data \<Rightarrow> Inr data
      | Inl e \<Rightarrow>
          if err_code e = Some ''ECONNREFUSED'' \<or> err_code e = Some ''ECONNABORTED''
          then Inl (HttpException ''Presidio Analyzer service is unavailable'' 503)
          else Inl (HttpException ''Failed to analyze text'' (status_or_500 e)))"

definition post_anonymize ::
  "anonymizer_service \<Rightarrow> string \<Rightarrow> string \<Rightarrow> analyzer_result list \<Rightarrow> error + anonymizer_response" where
  "post_anonymize anonymizer anonymizerUrl text analyzerResults =
     (case anonymizer (anonymizerUrl @ ''/anonymize'') text analyzerResults of
        Inr data \<Rightarrow> Inr data
      | Inl e \<Rightarrow> Inl (HttpException ''Failed to anonymize text'' (status_or_500 e)))"

text \<open>The two addresses: the fallbacks, and the swap when each names the other's port.\<close>

definition url_or :: "string option \<Rightarrow> string \<Rightarrow> string" where
  "url_or u fallback = (case u of Some v \<Rightarrow> if v \<noteq> [] then v else fallback | None \<Rightarrow> fallback)"

definition service_urls :: "config \<Rightarrow> string \<times> string" where
  "service_urls cfg =
     (let analyzerUrl = url_or (PRESIDIO_ANALYZER_URL cfg) ''http://localhost:5001'';
          anonymizerUrl = url_or (PRESIDIO_ANONYMIZER_URL cfg) ''http://localhost:5002''
      in if js_includes analyzerUrl ''5002'' \<and> js_includes anonymizerUrl ''5001''
         then (anonymizerUrl, analyzerUrl) else (analyzerUrl, anonymizerUrl))"

text \<open>The body of the inner \<^verbatim>\<open>try\<close>, on the cleared table: the result or the exception,
  and the table as it is left.\<close>

definition anonymize_steps ::
  "config \<Rightarrow> analyzer_service \<Rightarrow> anonymizer_service \<Rightarrow> string
     \<Rightarrow> (error + string \<times> bool) \<times> entity_table" where
  "anonymize_steps cfg analyzer anonymizer text =
     (let (analyzerUrl, anonymizerUrl) = service_urls cfg in
      case analyzeText analyzer text analyzerUrl of
        Inl e \<Rightarrow> (Inl e, [])
      | Inr None \<Rightarrow> (Inr (text, False), [])
      | Inr (Some analyzerResults) \<Rightarrow>
          if analyzerResults = [] then (Inr (text, False), [])
          else
            (case post_anonymize anonymizer anonymizerUrl text analyzerResults of
               Inl e \<Rightarrow> (Inl e, [])
             | Inr data \<Rightarrow>
                 (let anonymizedText = resp_text data;
                      anonymizerResults = (case resp_items data of Some items \<Rightarrow> items | None \<Rightarrow> []);
                      m = buildEntityMapping text anonymizerResults analyzerResults []
                  in (Inr (anonymizedText, length m > 0), m))))"

text \<open>\<^verbatim>\<open>anonymizeText\<close>: the table is cleared first; the inner \<^verbatim>\<open>catch\<close> turns every
  exception of the steps into the original text with \<^verbatim>\<open>entitiesFound: false\<close>; the outer
  \<^verbatim>\<open>catch\<close> throws again what reaches it. The first component is what the caller gets
  (\<open>Inl\<close>: an exception), the second the table afterwards.\<close>

definition anonymizeText ::
  "config \<Rightarrow> analyzer_service \<Rightarrow> anonymizer_service \<Rightarrow> entity_table \<Rightarrow> string
     \<Rightarrow> (error + string \<times> bool) \<times> entity_table" where
  "anonymizeText cfg analyzer anonymizer m text =
     (let (outcome, m') = anonymize_steps cfg analyzer anonymizer text;
          inner = (case outcome of
                     Inl e \<Rightarrow> Inr (text, False)
                   | Inr r \<Rightarrow> Inr r)
      in (case inner of Inl e \<Rightarrow> Inl e | Inr r \<Rightarrow> Inr r, m'))"

section \<open>buildAnonymizersConfig\<close>

text \<open>The operators that the service asks of the anonymizer, by entity type, as the object
  literal lists them; the entry \<^verbatim>\<open>DEFAULT\<close> stands for every type not listed.\<close>

datatype operator = Replace string | Mask char nat bool | Hash string

definition buildAnonymizersConfig :: "(string \<times> operator) list" where
  "buildAnonymizersConfig =
     [(''PHONE_NUMBER'', Replace ''[PHONE]''),
      (''NAME'', Replace ''[PERSON]''),
      (''PERSON'', Replace ''[PERSON]''),
      (''EMAIL_ADDRESS'', Mask (CHR ''*'') 5 False),
      (''LOCATION'', Replace ''[LOCATION]''),
      (''ORGANIZATION'', Replace ''[ORGANIZATION]''),
      (''US_SSN'', Mask (CHR ''#'') 5 True),
      (''US_DRIVER_LICENSE'', Mask (CHR ''#'') 4 True),
      (''CREDIT_CARD'', Mask (CHR ''*'') 12 True),
      (''DATE_TIME'', Replace ''[DATE_TIME]''),
      (''NRP'', Replace ''[NRP]''),
      (''US_BANK_ACCOUNT'', Mask (CHR ''#'') 8 True),
      (''US_ITIN'', Mask (CHR ''#'') 5 True),
      (''US_PASSPORT'', Mask (CHR ''#'') 5 True),
      (''UK_NHS'', Mask (CHR ''#'') 6 True),
      (''IP_ADDRESS'', Mask (CHR ''0'') 6 True),
      (''IBAN_CODE'', Mask (CHR ''#'') 10 True),
      (''CRYPTO'', Mask (CHR ''*'') 10 True),
      (''URL'', Replace ''[URL]''),
      (''MEDICAL_LICENSE'', Mask (CHR ''#'') 5 True),
      (''MEDICAL_RECORD'', Mask (CHR ''#'') 5 True),
      (''AGE'', Replace ''[AGE]''),
      (''ADDRESS'', Replace ''[ADDRESS]''),
      (''DEFAULT'', Hash ''sha256'')]"


section \<open>Auxiliary definitions\<close>

subsection \<open>Entries and keys\<close>

text \<open>The entry that the fourth loop of \<^verbatim>\<open>buildEntityMapping\<close> builds for a span, and the
  test that makes it skip the span.\<close>

definition entry_of :: "string \<Rightarrow> (string, string) js_map \<Rightarrow> analyzer_result \<Rightarrow> SensitiveEntity" where
  "entry_of originalText ae entity =
     \<lparr>original = substring originalText (ar_start entity) (ar_end entity),
      anonymized = anonymizedValue_of ae (ar_entity_type entity),
      entityType = ar_entity_type entity,
      start = ar_start entity, endp = ar_end entity\<rparr>"

definition fragment :: "string \<Rightarrow> analyzer_result \<Rightarrow> bool" where
  "fragment originalText entity \<longleftrightarrow>
     ar_entity_type entity = ''PERSON''
     \<and> length (substring originalText (ar_start entity) (ar_end entity)) < 3"

text \<open>The key of a span of the analyzer.\<close>

definition span_key :: "analyzer_result \<Rightarrow> string" where
  "span_key r = entity_key (ar_entity_type r) (ar_start r) (ar_end r)"

text \<open>Every key of a table built by \<^verbatim>\<open>buildEntityMapping\<close> starts with the type of its
  entry and a dash.\<close>

definition keyed :: "entity_table \<Rightarrow> bool" where
  "keyed m \<longleftrightarrow> (\<forall>kv \<in> set m. startsWith (fst kv) (entityType (snd kv) @ ''-''))"

definition without_type :: "string \<Rightarrow> entity_table \<Rightarrow> entity_table" where
  "without_type ty m = filter (\<lambda>kv. \<not> startsWith (fst kv) (ty @ ''-'')) m"

text \<open>The table after the reduction of a type to the entry \<open>w\<close>.\<close>

definition reduced_to :: "string \<Rightarrow> SensitiveEntity \<Rightarrow> entity_table \<Rightarrow> bool" where
  "reduced_to ty w m \<longleftrightarrow>
     entityType w = ty
     \<and> map_get m (ty @ ''-best'') = Some w
     \<and> filter (\<lambda>e. entityType e = ty) (map_values m) = [w]
     \<and> (\<forall>k \<in> set (map_keys m). startsWith k (ty @ ''-'') \<longrightarrow> k = ty @ ''-best'')"

subsection \<open>The order of preference\<close>

text \<open>The order in which \<^verbatim>\<open>findBestMatch\<close> prefers one entry to another: \<open>a\<close> is at least as
  good as \<open>b\<close> when \<open>a\<close> alone has the mark, or both or neither have it and \<open>a\<close> is not the
  shorter one; \<open>a\<close> is better than \<open>b\<close> when \<open>b\<close> is not at least as good as \<open>a\<close>.\<close>

definition at_least_as_good :: "string \<Rightarrow> SensitiveEntity \<Rightarrow> SensitiveEntity \<Rightarrow> bool" where
  "at_least_as_good mark a b \<longleftrightarrow>
     (js_includes (original a) mark \<and> \<not> js_includes (original b) mark)
     \<or> (js_includes (original a) mark = js_includes (original b) mark
         \<and> length (original b) \<le> length (original a))"

definition better :: "string \<Rightarrow> SensitiveEntity \<Rightarrow> SensitiveEntity \<Rightarrow> bool" where
  "better mark a b \<longleftrightarrow>
     (js_includes (original a) mark \<and> \<not> js_includes (original b) mark)
     \<or> (js_includes (original a) mark = js_includes (original b) mark
         \<and> length (original b) < length (original a))"

subsection \<open>Literal replacement and bracketed placeholders\<close>

text \<open>A global replacement of a literal by a literal, with no special meaning of the dollar
  sign in the replacement.\<close>

function replace_lit :: "string \<Rightarrow> string \<Rightarrow> string \<Rightarrow> string" where
  "replace_lit p r s =
     (if p \<noteq> [] \<and> prefix p s then r @ replace_lit p r (drop (length p) s)
      else (case s of [] \<Rightarrow> [] | c # cs \<Rightarrow> c # replace_lit p r cs))"
  by pat_completeness auto
termination
proof (relation "measure (\<lambda>(p, r, s). length s)")
  fix p r s :: string
  assume "p \<noteq> [] \<and> prefix p s"
  then have "s \<noteq> []" "p \<noteq> []" by auto
  then show "((p, r, drop (length p) s), (p, r, s)) \<in> measure (\<lambda>(p, r, s). length s)"
    by simp
qed auto

declare replace_lit.simps [simp del]

text \<open>A placeholder in brackets: an opening bracket, a name with no bracket in it, a closing
  bracket.\<close>

definition token :: "string \<Rightarrow> bool" where
  "token p =
     (case p of
        [] \<Rightarrow> False
      | c # r \<Rightarrow> c = CHR ''['' \<and> r \<noteq> [] \<and> last r = CHR '']''
                 \<and> CHR ''['' \<notin> set r \<and> CHR '']'' \<notin> set (butlast r))"

section \<open>The premises of the round trip\<close>

text \<open>
  The round trip is about a text in which the detector found spans that do not overlap, and
  an anonymizer that put a placeholder in the place of each span. Such a text is a list of
  segments: plain text, or a detected span with its type, its original value and its score.
  \<open>text_of\<close> is the text, \<open>spans_from 0\<close> are the spans the detector reports (in the order
  of the text), \<open>anonymized_text\<close> is the text in which each span is replaced by the literal
  that \<^verbatim>\<open>buildAnonymizersConfig\<close> gives for its type (\<open>new_value\<close>; it is the empty string for a
  type that has no literal, and \<open>literal_type\<close> says whether the type has one), and
  \<open>items_of\<close> are the items of an anonymizer that reports the literal once for each span.
\<close>

datatype segment = Plain string | Detected string string rat

fun seg_original :: "segment \<Rightarrow> string" where
  "seg_original (Plain s) = s"
| "seg_original (Detected ty s sc) = s"

definition text_of :: "segment list \<Rightarrow> string" where
  "text_of segs = concat (map seg_original segs)"

fun spans_from :: "nat \<Rightarrow> segment list \<Rightarrow> analyzer_result list" where
  "spans_from off [] = []"
| "spans_from off (Plain s # segs) = spans_from (off + length s) segs"
| "spans_from off (Detected ty s sc # segs) =
     \<lparr>ar_entity_type = ty, ar_start = int off, ar_end = int (off + length s), ar_score = sc\<rparr>
       # spans_from (off + length s) segs"

fun detected :: "segment list \<Rightarrow> (string \<times> string) list" where
  "detected [] = []"
| "detected (Plain s # segs) = detected segs"
| "detected (Detected ty s sc # segs) = (ty, s) # detected segs"

definition new_value :: "string \<Rightarrow> string" where
  "new_value ty = (case map_of buildAnonymizersConfig ty of Some (Replace v) \<Rightarrow> v | _ \<Rightarrow> [])"

definition literal_type :: "string \<Rightarrow> bool" where
  "literal_type ty = (case map_of buildAnonymizersConfig ty of Some (Replace v) \<Rightarrow> True | _ \<Rightarrow> False)"

fun seg_anonymized :: "segment \<Rightarrow> string" where
  "seg_anonymized (Plain s) = s"
| "seg_anonymized (Detected ty s sc) = new_value ty"

definition anonymized_text :: "segment list \<Rightarrow> string" where
  "anonymized_text segs = concat (map seg_anonymized segs)"

definition items_of :: "segment list \<Rightarrow> anonymizer_item list" where
  "items_of segs =
     map (\<lambda>(ty, s). \<lparr>it_entity_type = ty, it_text = Some (new_value ty)\<rparr>) (detected segs)"

text \<open>An anonymizer that answers with the placeholders substituted at the spans of the
  segments, whatever it is asked.\<close>

definition substituting_anonymizer :: "segment list \<Rightarrow> anonymizer_service" where
  "substituting_anonymizer segs url text rs =
     Inr \<lparr>resp_text = anonymized_text segs, resp_items = Some (items_of segs)\<rparr>"

text \<open>The types that \<^verbatim>\<open>buildAnonymizersConfig\<close> replaces by a literal, with the literal.\<close>

definition literal_table :: "(string \<times> string) list" where
  "literal_table =
     List.map_filter (\<lambda>(ty, operator). case operator of Replace v \<Rightarrow> Some (ty, v) | _ \<Rightarrow> None)
       buildAnonymizersConfig"

definition literal_ok :: "string \<times> string \<Rightarrow> bool" where
  "literal_ok tv \<longleftrightarrow> CHR ''-'' \<notin> set (fst tv) \<and> token (snd tv)"

text \<open>The patterns that \<^verbatim>\<open>String.prototype.replace\<close> expands in its second argument when the
  first has no capture group: a dollar sign followed by a dollar sign, an ampersand, a
  backquote or an apostrophe. \<open>dollar_pattern s\<close> says that \<open>s\<close> includes one of them.\<close>

definition substitution_patterns :: "string list" where
  "substitution_patterns = [''$$'', ''$&'', [CHR ''$'', CHR 0x60], [CHR ''$'', CHR 0x27]]"

definition dollar_pattern :: "string \<Rightarrow> bool" where
  "dollar_pattern s = list_ex (js_includes s) substitution_patterns"

text \<open>The text in the course of the restoration: the spans whose placeholder is in \<open>P\<close> have
  their original value again, the others still their placeholder.\<close>

fun seg_current :: "string set \<Rightarrow> segment \<Rightarrow> string" where
  "seg_current P (Plain s) = s"
| "seg_current P (Detected ty s sc) = (if new_value ty \<in> P then s else new_value ty)"

definition current_text :: "string set \<Rightarrow> segment list \<Rightarrow> string" where
  "current_text P segs = concat (map (seg_current P) segs)"

section \<open>Scenarios\<close>

text \<open>Short forms of a span, an item and an entry.\<close>

definition mk_span :: "string \<Rightarrow> int \<Rightarrow> int \<Rightarrow> rat \<Rightarrow> analyzer_result" where
  "mk_span ty s e sc = \<lparr>ar_entity_type = ty, ar_start = s, ar_end = e, ar_score = sc\<rparr>"

definition mk_item :: "string \<Rightarrow> string \<Rightarrow> anonymizer_item" where
  "mk_item ty t = \<lparr>it_entity_type = ty, it_text = Some t\<rparr>"

definition mk_entity :: "string \<Rightarrow> string \<Rightarrow> string \<Rightarrow> int \<Rightarrow> int \<Rightarrow> SensitiveEntity" where
  "mk_entity orig anon ty s e =
     \<lparr>original = orig, anonymized = anon, entityType = ty, start = s, endp = e\<rparr>"

text \<open>Services that fail, or that answer every request with the same data; the
  configuration with no address set.\<close>

definition no_config :: config where
  "no_config = \<lparr>PRESIDIO_ANALYZER_URL = None, PRESIDIO_ANONYMIZER_URL = None\<rparr>"

definition failing_analyzer :: analyzer_service where
  "failing_analyzer url text = Inl \<lparr>err_code = Some ''ECONNREFUSED'', err_status = None\<rparr>"

definition failing_anonymizer :: anonymizer_service where
  "failing_anonymizer url text rs = Inl \<lparr>err_code = None, err_status = Some 503\<rparr>"

definition constant_analyzer :: "analyzer_result list \<Rightarrow> analyzer_service" where
  "constant_analyzer rs url text = Inr (Some rs)"

definition constant_anonymizer :: "string \<Rightarrow> anonymizer_item list \<Rightarrow> anonymizer_service" where
  "constant_anonymizer anonymizedText items url text rs =
     Inr \<lparr>resp_text = anonymizedText, resp_items = Some items\<rparr>"

text \<open>The scenario of the specification: the text, the items of the anonymizer and its text,
  the spans as the specification gives them, and the spans where the name and the number
  are in the text.\<close>

definition scenario_text :: string where
  "scenario_text = ''Hello, my name is John Doe and my phone number is +1 555-123-4567.''"

definition scenario_anonymized :: string where
  "scenario_anonymized = ''Hello, my name is [PERSON] and my phone number is [PHONE].''"

definition scenario_items :: "anonymizer_item list" where
  "scenario_items = [mk_item ''PERSON'' ''[PERSON]'', mk_item ''PHONE_NUMBER'' ''[PHONE]'']"

definition scenario_spans_as_specified :: "analyzer_result list" where
  "scenario_spans_as_specified =
     [mk_span ''PERSON'' 18 26 (9 / 10), mk_span ''PHONE_NUMBER'' 52 67 (8 / 10)]"

definition scenario_spans :: "analyzer_result list" where
  "scenario_spans = [mk_span ''PERSON'' 18 26 (9 / 10), mk_span ''PHONE_NUMBER'' 50 65 (8 / 10)]"

text \<open>Texts in segments: one with two places, one with a name of two letters, one in which
  a name occurs twice and an address of the web has a dollar sign before a digit, and those
  with an address in which a dollar sign is followed by \<open>c\<close>.\<close>

definition two_places_segments :: "segment list" where
  "two_places_segments =
     [Plain ''From '', Detected ''LOCATION'' ''Paris'' (17 / 20),
      Plain '' to '', Detected ''LOCATION'' ''Rome'' (17 / 20)]"

definition short_name_segments :: "segment list" where
  "short_name_segments = [Plain ''Hi '', Detected ''PERSON'' ''Al'' (17 / 20)]"

definition repeated_segments :: "segment list" where
  "repeated_segments =
     [Detected ''PERSON'' ''John Doe'' (17 / 20), Plain '' met '',
      Detected ''PERSON'' ''John Doe'' (4 / 5), Plain '' in '',
      Detected ''LOCATION'' ''Paris'' (17 / 20), Plain ''; see '',
      Detected ''URL'' ''http://a.io/?p=$5'' (3 / 5), Plain ''.'']"

definition pattern_segments :: "char \<Rightarrow> segment list" where
  "pattern_segments c =
     [Plain ''Pay '', Detected ''URL'' (''http://a.io/?x=$'' @ c # ''y'') (3 / 5), Plain '' now'']"

text \<open>Tables and inputs for the best match: two phone numbers and two names, in both orders;
  and two phone numbers of which the longer one has its plus sign inside brackets.\<close>

definition phones_short_first :: entity_table where
  "phones_short_first =
     [(''PHONE_NUMBER-5-13'', mk_entity ''555-1234'' ''[PHONE]'' ''PHONE_NUMBER'' 5 13),
      (''PHONE_NUMBER-17-32'', mk_entity ''+1 555-123-4567'' ''[PHONE]'' ''PHONE_NUMBER'' 17 32)]"

definition phones_long_first :: entity_table where
  "phones_long_first =
     [(''PHONE_NUMBER-17-32'', mk_entity ''+1 555-123-4567'' ''[PHONE]'' ''PHONE_NUMBER'' 17 32),
      (''PHONE_NUMBER-5-13'', mk_entity ''555-1234'' ''[PHONE]'' ''PHONE_NUMBER'' 5 13)]"

definition persons_short_first :: entity_table where
  "persons_short_first =
     [(''PERSON-5-8'', mk_entity ''Doe'' ''[PERSON]'' ''PERSON'' 5 8),
      (''PERSON-0-8'', mk_entity ''John Doe'' ''[PERSON]'' ''PERSON'' 0 8)]"

definition persons_long_first :: entity_table where
  "persons_long_first =
     [(''PERSON-0-8'', mk_entity ''John Doe'' ''[PERSON]'' ''PERSON'' 0 8),
      (''PERSON-5-8'', mk_entity ''Doe'' ''[PERSON]'' ''PERSON'' 5 8)]"

definition two_phones_text :: string where
  "two_phones_text = ''Call 555-1234 or +1 555-123-4567''"

definition bracket_phones_text :: string where
  "bracket_phones_text = ''Call +1 555-1234 or (+1) 555-123-4567''"

text \<open>A text with a name, detected twice, and two phone numbers.\<close>

definition mixed_text :: string where
  "mixed_text = ''John Doe: 555-1234 or +1 555-123-4567''"

definition mixed_spans :: "analyzer_result list" where
  "mixed_spans =
     [mk_span ''PERSON'' 5 8 (17 / 20), mk_span ''PHONE_NUMBER'' 10 18 (3 / 4),
      mk_span ''PERSON'' 0 8 (17 / 20), mk_span ''PHONE_NUMBER'' 22 37 (3 / 4)]"

definition mixed_items :: "anonymizer_item list" where
  "mixed_items = [mk_item ''PERSON'' ''[PERSON]'', mk_item ''PHONE_NUMBER'' ''[PHONE]'']"

text \<open>A text with an address of the web in which a dollar sign is followed by an
  ampersand.\<close>

definition link_text :: string where
  "link_text = ''See http://a.io/?x=$&y=1 now''"

definition link_segments :: "segment list" where
  "link_segments = [Plain ''See '', Detected ''URL'' ''http://a.io/?x=$&y=1'' (3 / 5), Plain '' now'']"

section \<open>Lemmas\<close>


subsection \<open>Maps\<close>

lemma map_values_Nil [simp]: "map_values [] = []"
  by (simp add: map_values_def)

lemma map_values_map_set_subset:
  "set (map_values (map_set k v m)) \<subseteq> insert v (set (map_values m))"
  by (induction m) (auto simp: map_values_def map_set_def)

lemma map_set_new:
  "k \<notin> set (map_keys m) \<Longrightarrow> map_set k v m = m @ [(k, v)]"
  by (induction m) (auto simp: map_set_def map_keys_def)

lemma map_has_iff: "map_has m k \<longleftrightarrow> k \<in> set (map_keys m)"
  by (simp add: map_has_def map_keys_def map_of_eq_None_iff)

lemma distinct_map_set:
  "distinct (map_keys m) \<Longrightarrow> distinct (map_keys (map_set k v m))"
  by (simp add: map_keys_def map_set_def distinct_update)

lemma map_get_map_set: "map_get (map_set k v m) k' = (if k' = k then Some v else map_get m k')"
  by (simp add: map_get_def map_set_def update_conv')

lemma delete_all_eq:
  "foldl (\<lambda>m' key. map_delete key m') m ks = filter (\<lambda>kv. fst kv \<notin> set ks) m"
proof (induction ks arbitrary: m)
  case Nil
  show ?case by simp
next
  case (Cons k ks)
  have "map_delete k m = filter (\<lambda>kv. fst kv \<noteq> k) m"
    by (induction m) (auto simp: map_delete_def)
  then show ?case using Cons by (simp add: conj_commute)
qed

lemma cleared_eq:
  "foldl (\<lambda>m' key. map_delete key m') m (filter P (map_keys m)) = filter (\<lambda>kv. \<not> P (fst kv)) m"
  by (simp add: delete_all_eq map_keys_def) (rule filter_cong, auto)

subsection \<open>Sorting\<close>

lemma set_insert_by: "set (insert_by cmp x ys) = insert x (set ys)"
  by (induction ys) auto

lemma set_sort_by: "set (sort_by cmp xs) = set xs"
  by (induction xs) (auto simp: sort_by_def set_insert_by)

lemma length_insert_by: "length (insert_by cmp x ys) = Suc (length ys)"
  by (induction ys) auto

lemma length_sort_by: "length (sort_by cmp xs) = length xs"
  by (induction xs) (auto simp: sort_by_def length_insert_by)

lemma sort_by_Nil: "sort_by cmp [] = []"
  by (simp add: sort_by_def)

lemma sort_by_single: "sort_by cmp [x] = [x]"
  by (simp add: sort_by_def)

lemma sort_by_Cons: "sort_by cmp (x # xs) = insert_by cmp x (sort_by cmp xs)"
  by (simp add: sort_by_def)

subsection \<open>findBestMatch keeps entries of the table\<close>

lemma entity_copy:
  "entityType b = ty \<Longrightarrow>
   \<lparr>original = original b, anonymized = anonymized b, entityType = ty,
    start = start b, endp = endp b\<rparr> = b"
  by (cases b) auto

lemma keep_best_same_type:
  assumes "entityType b = ty"
  shows "keep_best ty b m =
     map_set (ty @ ''-best'') b (filter (\<lambda>kv. \<not> startsWith (fst kv) (ty @ ''-'')) m)"
  unfolding keep_best_def Let_def cleared_eq entity_copy [OF assms] ..

lemma findBestMatch_eq:
  "findBestMatch ty m =
     (let entities = filter (\<lambda>e. entityType e = ty) (map_values m) in
      if length entities \<le> 1 \<or> (ty \<noteq> ''PHONE_NUMBER'' \<and> ty \<noteq> ''PERSON'') then m
      else keep_best ty (hd (sort_by (if ty = ''PERSON'' then person_compare else phone_compare) entities)) m)"
proof -
  have ne: "sort_by c (filter (\<lambda>e. entityType e = ty) (map_values m)) \<noteq> []"
    if "\<not> length (filter (\<lambda>e. entityType e = ty) (map_values m)) \<le> 1" for c
    using that length_sort_by [of c "filter (\<lambda>e. entityType e = ty) (map_values m)"] by auto
  show ?thesis
    using ne by (auto simp: findBestMatch_def Let_def split: list.splits)
qed

lemma best_in_entities:
  assumes "\<not> length (filter (\<lambda>e. entityType e = ty) (map_values m)) \<le> 1"
  shows "hd (sort_by c (filter (\<lambda>e. entityType e = ty) (map_values m)))
           \<in> set (filter (\<lambda>e. entityType e = ty) (map_values m))"
proof -
  let ?es = "filter (\<lambda>e. entityType e = ty) (map_values m)"
  have "sort_by c ?es \<noteq> []" using assms length_sort_by [of c ?es] by auto
  then show ?thesis using set_sort_by [of c ?es] hd_in_set by blast
qed

lemma values_keep_best:
  assumes "b \<in> set (map_values m)" "entityType b = ty"
  shows "set (map_values (keep_best ty b m)) \<subseteq> set (map_values m)"
proof -
  have "set (map_values (filter (\<lambda>kv. \<not> startsWith (fst kv) (ty @ ''-'')) m)) \<subseteq> set (map_values m)"
    by (auto simp: map_values_def)
  with assms map_values_map_set_subset [of "ty @ ''-best''" b
      "filter (\<lambda>kv. \<not> startsWith (fst kv) (ty @ ''-'')) m"]
  show ?thesis by (auto simp: keep_best_same_type)
qed

lemma values_findBestMatch:
  "set (map_values (findBestMatch ty m)) \<subseteq> set (map_values m)"
proof (cases "length (filter (\<lambda>e. entityType e = ty) (map_values m)) \<le> 1")
  case True
  then show ?thesis by (simp add: findBestMatch_eq)
next
  case False
  from best_in_entities [OF False] values_keep_best [of _ m ty]
  have "set (map_values (keep_best ty (hd (sort_by c (filter (\<lambda>e. entityType e = ty) (map_values m)))) m))
          \<subseteq> set (map_values m)" for c
    by simp
  then show ?thesis by (simp add: findBestMatch_eq Let_def)
qed


subsection \<open>Entries come from analyzer results\<close>

lemma add_entity_eq:
  "add_entity originalText ae m entity =
     (if fragment originalText entity then m
      else map_set (entity_key (ar_entity_type entity) (ar_start entity) (ar_end entity))
             (entry_of originalText ae entity) m)"
  by (simp add: add_entity_def entry_of_def fragment_def Let_def)

lemma values_add_entity_fold:
  "set (map_values (foldl (add_entity originalText ae) m es))
     \<subseteq> set (map_values m) \<union> entry_of originalText ae ` {e \<in> set es. \<not> fragment originalText e}"
proof (induction es arbitrary: m)
  case Nil
  show ?case by simp
next
  case (Cons e es)
  have "set (map_values (add_entity originalText ae m e))
          \<subseteq> set (map_values m) \<union> entry_of originalText ae ` {x \<in> {e}. \<not> fragment originalText x}"
    using map_values_map_set_subset [of _ "entry_of originalText ae e" m]
    by (auto simp: add_entity_eq)
  with Cons [of "add_entity originalText ae m e"] show ?case by auto
qed

lemma group_step_members:
  assumes "\<forall>es \<in> set (map_values gm). set es \<subseteq> A" "r \<in> A"
  shows "\<forall>es \<in> set (map_values (group_step gm r)). set es \<subseteq> A"
proof
  fix es
  assume es: "es \<in> set (map_values (group_step gm r))"
  define old where "old = (case map_get gm (ar_entity_type r) of Some es \<Rightarrow> es | None \<Rightarrow> [])"
  have "set old \<subseteq> A"
  proof (cases "map_of gm (ar_entity_type r)")
    case None
    then show ?thesis by (simp add: old_def map_get_def)
  next
    case (Some es')
    then have "(ar_entity_type r, es') \<in> set gm" by (rule map_of_SomeD)
    then have "es' \<in> set (map_values gm)" by (force simp: map_values_def)
    with assms(1) have "set es' \<subseteq> A" by (rule bspec)
    with Some show ?thesis by (simp add: old_def map_get_def)
  qed
  then have new: "set (old @ [r]) \<subseteq> A" using assms(2) by simp
  have "set (map_values (group_step gm r)) \<subseteq> insert (old @ [r]) (set (map_values gm))"
    unfolding group_step_def Let_def old_def by (rule map_values_map_set_subset)
  with es have "es = old @ [r] \<or> es \<in> set (map_values gm)" by blast
  then show "set es \<subseteq> A"
  proof
    assume "es = old @ [r]"
    with new show ?thesis by simp
  next
    assume "es \<in> set (map_values gm)"
    with assms(1) show ?thesis by (rule bspec)
  qed
qed

lemma group_by_type_members_aux:
  "\<forall>es \<in> set (map_values gm). set es \<subseteq> A \<Longrightarrow> set rs \<subseteq> A \<Longrightarrow>
   \<forall>es \<in> set (map_values (foldl group_step gm rs)). set es \<subseteq> A"
proof (induction rs arbitrary: gm)
  case Nil
  then show ?case by simp
next
  case (Cons r rs)
  from Cons.prems have "\<forall>es \<in> set (map_values (group_step gm r)). set es \<subseteq> A"
    by (intro group_step_members) simp_all
  with Cons.IH [of "group_step gm r"] Cons.prems(2) show ?case by simp
qed

lemma group_by_type_members: "\<forall>es \<in> set (map_values (group_by_type rs)). set es \<subseteq> set rs"
  unfolding group_by_type_def using group_by_type_members_aux [of "[]" "set rs" rs] by simp

lemma process_entity_values:
  "set (map_values (foldl (process_entity ty) pe es)) \<subseteq> set (map_values pe) \<union> set es"
proof (induction es arbitrary: pe)
  case Nil
  show ?case by simp
next
  case (Cons e es)
  have "set (map_values (process_entity ty pe e)) \<subseteq> insert e (set (map_values pe))"
    using map_values_map_set_subset [of _ e pe] by (auto simp: process_entity_def Let_def)
  with Cons [of "process_entity ty pe e"] show ?case by auto
qed

lemma process_group_values:
  "\<forall>es \<in> set (map_values gs). set es \<subseteq> A \<Longrightarrow> set (map_values pe) \<subseteq> A \<Longrightarrow>
   set (map_values (foldl process_group pe gs)) \<subseteq> A"
proof (induction gs arbitrary: pe)
  case Nil
  then show ?case by simp
next
  case (Cons g gs)
  have "set (map_values (process_group pe g)) \<subseteq> set (map_values pe) \<union> set (snd g)"
    unfolding process_group_def using process_entity_values [of "fst g" pe "sort_by span_compare (snd g)"]
    by (simp add: set_sort_by)
  moreover from Cons.prems(1) have "set (snd g) \<subseteq> A" by (simp add: map_values_def)
  ultimately have "set (map_values (process_group pe g)) \<subseteq> A" using Cons.prems(2) by blast
  moreover from Cons.prems(1) have "\<forall>es \<in> set (map_values gs). set es \<subseteq> A"
    by (simp add: map_values_def)
  ultimately show ?case using Cons.IH [of "process_group pe g"] by simp
qed

lemma processedEntities_values: "set (map_values (processedEntities rs)) \<subseteq> set rs"
  unfolding processedEntities_def
  using process_group_values [of "group_by_type rs" "set rs" "[]"] group_by_type_members [of rs]
  by simp

lemma values_add_entities:
  "set (map_values (add_entities originalText items rs m))
     \<subseteq> set (map_values m)
        \<union> entry_of originalText (anonymizedEntities items)
            ` {e \<in> set (map_values (processedEntities rs)). \<not> fragment originalText e}"
  unfolding add_entities_def by (rule values_add_entity_fold)

lemma values_buildEntityMapping:
  "set (map_values (buildEntityMapping originalText items rs m))
     \<subseteq> set (map_values m)
        \<union> entry_of originalText (anonymizedEntities items)
            ` {e \<in> set (map_values (processedEntities rs)). \<not> fragment originalText e}"
proof (cases "items = []")
  case True
  then show ?thesis by (simp add: buildEntityMapping_def)
next
  case False
  have "set (map_values (findBestMatch ''PERSON'' (findBestMatch ''PHONE_NUMBER''
          (add_entities originalText items rs m))))
        \<subseteq> set (map_values (add_entities originalText items rs m))"
    using values_findBestMatch by blast
  also note values_add_entities [of originalText items rs m]
  finally show ?thesis using False by (simp add: buildEntityMapping_def)
qed

subsection \<open>Placeholders\<close>

lemma anonymizedEntities_snoc:
  "anonymizedEntities (items @ [i]) =
     map_set (it_entity_type i) (item_placeholder i) (anonymizedEntities items)"
  by (simp add: anonymizedEntities_def)

lemma anonymizedEntities_get:
  "map_get (anonymizedEntities items) ty =
     (if ty \<in> set (map it_entity_type items)
      then Some (item_placeholder (last (filter (\<lambda>i. it_entity_type i = ty) items)))
      else None)"
proof (induction items rule: rev_induct)
  case Nil
  show ?case by (simp add: anonymizedEntities_def map_get_def)
next
  case (snoc i items)
  show ?case
  proof (cases "it_entity_type i = ty")
    case True
    then show ?thesis by (simp add: anonymizedEntities_snoc map_get_map_set)
  next
    case False
    then have "ty \<noteq> it_entity_type i" by blast
    with False snoc show ?thesis by (simp add: anonymizedEntities_snoc map_get_map_set)
  qed
qed

lemma item_placeholder_nonempty: "item_placeholder i \<noteq> []"
  by (simp add: item_placeholder_def Let_def bracketed_def split: option.splits)

lemma anonymizedValue_of_present:
  assumes "ty \<in> set (map it_entity_type items)"
  shows "anonymizedValue_of (anonymizedEntities items) ty =
           item_placeholder (last (filter (\<lambda>i. it_entity_type i = ty) items))"
  using assms by (simp add: anonymizedValue_of_def anonymizedEntities_get item_placeholder_nonempty)

lemma anonymizedValue_of_absent:
  assumes "ty \<notin> set (map it_entity_type items)"
  shows "anonymizedValue_of (anonymizedEntities items) ty = bracketed ty"
  using assms by (simp add: anonymizedValue_of_def anonymizedEntities_get)

lemma last_filter_type:
  assumes "ty \<in> set (map it_entity_type items)"
  shows "it_entity_type (last (filter (\<lambda>i. it_entity_type i = ty) items)) = ty"
proof -
  from assms have "filter (\<lambda>i. it_entity_type i = ty) items \<noteq> []"
    by (auto simp: filter_empty_conv)
  then have "last (filter (\<lambda>i. it_entity_type i = ty) items)
               \<in> set (filter (\<lambda>i. it_entity_type i = ty) items)"
    by (rule last_in_set)
  then show ?thesis by simp
qed

lemma entries_anonymized:
  assumes "v \<in> set (map_values (buildEntityMapping originalText items rs []))"
  shows "anonymized v = anonymizedValue_of (anonymizedEntities items) (entityType v)"
proof -
  from assms values_buildEntityMapping [of originalText items rs "[]"]
  have "v \<in> entry_of originalText (anonymizedEntities items)
            ` {e \<in> set (map_values (processedEntities rs)). \<not> fragment originalText e}"
    by auto
  then show ?thesis by (auto simp: entry_of_def)
qed

subsection \<open>The best match\<close>

lemma hd_insert_by:
  "hd (insert_by cmp x ys) = (if ys = [] \<or> cmp x (hd ys) \<le> 0 then x else hd ys)"
  by (cases ys) auto

lemma sort_by_not_Nil: "xs \<noteq> [] \<Longrightarrow> sort_by cmp xs \<noteq> []"
  using length_sort_by [of cmp xs] by auto

lemma sort_by_hd:
  assumes total: "\<And>a b. cmp a b \<le> 0 \<or> cmp b a \<le> 0"
    and trans: "\<And>a b c. cmp a b \<le> 0 \<Longrightarrow> cmp b c \<le> 0 \<Longrightarrow> cmp a c \<le> 0"
    and "xs \<noteq> []"
  shows "\<exists>pre post. xs = pre @ hd (sort_by cmp xs) # post
           \<and> (\<forall>e \<in> set pre. \<not> cmp e (hd (sort_by cmp xs)) \<le> 0)
           \<and> (\<forall>e \<in> set xs. cmp (hd (sort_by cmp xs)) e \<le> 0)"
  using \<open>xs \<noteq> []\<close>
proof (induction xs)
  case Nil
  then show ?case by simp
next
  case (Cons x xs)
  show ?case
  proof (cases "xs = []")
    case True
    have "cmp x x \<le> 0" using total [of x x] by simp
    then have "[x] = [] @ x # [] \<and> (\<forall>e \<in> set []. \<not> cmp e x \<le> 0) \<and> (\<forall>e \<in> set [x]. cmp x e \<le> 0)"
      by simp
    then have "\<exists>pre post. [x] = pre @ x # post \<and> (\<forall>e \<in> set pre. \<not> cmp e x \<le> 0)
        \<and> (\<forall>e \<in> set [x]. cmp x e \<le> 0)"
      by blast
    with True show ?thesis by (simp add: sort_by_single)
  next
    case False
    define h where "h = hd (sort_by cmp xs)"
    from Cons.IH [OF False] obtain pre post where
      xs: "xs = pre @ h # post" and pre: "\<forall>e \<in> set pre. \<not> cmp e h \<le> 0"
      and all: "\<forall>e \<in> set xs. cmp h e \<le> 0"
      unfolding h_def by blast
    have hd: "hd (sort_by cmp (x # xs)) = (if cmp x h \<le> 0 then x else h)"
      using sort_by_not_Nil [OF False, of cmp] by (simp add: sort_by_Cons hd_insert_by h_def)
    show ?thesis
    proof (cases "cmp x h \<le> 0")
      case True
      have "cmp x e \<le> 0" if "e \<in> set (x # xs)" for e
      proof (cases "e = x")
        case True
        then show ?thesis using total [of x x] by simp
      next
        case False
        with that have "e \<in> set xs" by simp
        with all have "cmp h e \<le> 0" by blast
        with \<open>cmp x h \<le> 0\<close> show ?thesis by (rule trans)
      qed
      then have "x # xs = [] @ x # xs \<and> (\<forall>e \<in> set []. \<not> cmp e x \<le> 0)
          \<and> (\<forall>e \<in> set (x # xs). cmp x e \<le> 0)"
        by simp
      with True hd show ?thesis by metis
    next
      case False
      then have "cmp h x \<le> 0" using total [of x h] by blast
      with all have "\<forall>e \<in> set (x # xs). cmp h e \<le> 0" by simp
      moreover from pre False have "\<forall>e \<in> set (x # pre). \<not> cmp e h \<le> 0" by simp
      moreover from xs have "x # xs = (x # pre) @ h # post" by simp
      ultimately show ?thesis using False hd by metis
    qed
  qed
qed

lemma prefer_compare_le: "prefer_compare mark a b \<le> 0 \<longleftrightarrow> at_least_as_good mark a b"
  by (auto simp: prefer_compare_def at_least_as_good_def Let_def)

lemma not_at_least_as_good: "\<not> at_least_as_good mark a b \<longleftrightarrow> better mark b a"
  by (auto simp: at_least_as_good_def better_def)

lemma at_least_as_good_total: "at_least_as_good mark a b \<or> at_least_as_good mark b a"
  by (auto simp: at_least_as_good_def)

lemma at_least_as_good_trans:
  "at_least_as_good mark a b \<Longrightarrow> at_least_as_good mark b c \<Longrightarrow> at_least_as_good mark a c"
  by (auto simp: at_least_as_good_def)

lemma prefer_best:
  assumes "xs \<noteq> []"
  shows "\<exists>pre post. xs = pre @ hd (sort_by (prefer_compare mark) xs) # post
           \<and> (\<forall>e \<in> set pre. better mark (hd (sort_by (prefer_compare mark) xs)) e)
           \<and> (\<forall>e \<in> set xs. at_least_as_good mark (hd (sort_by (prefer_compare mark) xs)) e)"
proof -
  have "\<exists>pre post. xs = pre @ hd (sort_by (prefer_compare mark) xs) # post
           \<and> (\<forall>e \<in> set pre. \<not> prefer_compare mark e (hd (sort_by (prefer_compare mark) xs)) \<le> 0)
           \<and> (\<forall>e \<in> set xs. prefer_compare mark (hd (sort_by (prefer_compare mark) xs)) e \<le> 0)"
  proof (rule sort_by_hd)
    show "prefer_compare mark a b \<le> 0 \<or> prefer_compare mark b a \<le> 0" for a b
      unfolding prefer_compare_le by (rule at_least_as_good_total)
    show "prefer_compare mark a c \<le> 0"
      if "prefer_compare mark a b \<le> 0" "prefer_compare mark b c \<le> 0" for a b c
      using that unfolding prefer_compare_le by (rule at_least_as_good_trans)
    show "xs \<noteq> []" by fact
  qed
  then show ?thesis by (simp only: prefer_compare_le not_at_least_as_good)
qed

lemma findBestMatch_winner:
  assumes ty: "ty = ''PERSON'' \<and> mark = '' '' \<or> ty = ''PHONE_NUMBER'' \<and> mark = ''+''"
    and many: "1 < length (filter (\<lambda>e. entityType e = ty) (map_values m))"
  shows "\<exists>pre w post.
           filter (\<lambda>e. entityType e = ty) (map_values m) = pre @ w # post
           \<and> findBestMatch ty m = keep_best ty w m
           \<and> map_get (findBestMatch ty m) (ty @ ''-best'') = Some w
           \<and> (\<forall>e \<in> set pre. better mark w e)
           \<and> (\<forall>e \<in> set (pre @ w # post). at_least_as_good mark w e)"
proof -
  let ?es = "filter (\<lambda>e. entityType e = ty) (map_values m)"
  define w where "w = hd (sort_by (prefer_compare mark) ?es)"
  from many have ne: "?es \<noteq> []" by auto
  from prefer_best [OF ne, of mark] obtain pre post where
    dec: "?es = pre @ w # post" and pre: "\<forall>e \<in> set pre. better mark w e"
    and all: "\<forall>e \<in> set ?es. at_least_as_good mark w e"
    unfolding w_def by blast
  have "w \<in> set ?es" by (subst dec) simp
  then have wty: "entityType w = ty" by simp
  have cmp: "(if ty = ''PERSON'' then person_compare else phone_compare) = prefer_compare mark"
    using ty by (auto simp: person_compare_def phone_compare_def)
  have fb: "findBestMatch ty m = keep_best ty w m"
    using many ty unfolding findBestMatch_eq Let_def cmp w_def by auto
  have "map_get (keep_best ty w m) (ty @ ''-best'') = Some w"
    by (simp add: keep_best_same_type [OF wty] map_get_map_set)
  moreover from all dec have "\<forall>e \<in> set (pre @ w # post). at_least_as_good mark w e" by simp
  ultimately show ?thesis using fb dec pre by metis
qed

subsection \<open>Keys of the table\<close>

lemma set_map_set_subset: "set (map_set k v m) \<subseteq> insert (k, v) (set m)"
  by (induction m) (auto simp: map_set_def)

lemma keyed_Nil [simp]: "keyed []"
  by (simp add: keyed_def)

lemma keyed_map_set:
  assumes "keyed m" "startsWith k (entityType v @ ''-'')"
  shows "keyed (map_set k v m)"
  unfolding keyed_def
proof
  fix kv
  assume "kv \<in> set (map_set k v m)"
  with set_map_set_subset [of k v m] have "kv = (k, v) \<or> kv \<in> set m" by blast
  with assms show "startsWith (fst kv) (entityType (snd kv) @ ''-'')"
    by (auto simp: keyed_def)
qed

lemma entity_key_starts: "startsWith (entity_key ty s e) (ty @ ''-'')"
  by (simp add: entity_key_def startsWith_def)

lemma keyed_add_entity: "keyed m \<Longrightarrow> keyed (add_entity originalText ae m e)"
  by (simp add: add_entity_eq keyed_map_set entity_key_starts entry_of_def)

lemma distinct_add_entity:
  "distinct (map_keys m) \<Longrightarrow> distinct (map_keys (add_entity originalText ae m e))"
  by (simp add: add_entity_eq distinct_map_set)

lemma add_entity_fold_invariant:
  "keyed m \<Longrightarrow> distinct (map_keys m) \<Longrightarrow>
   keyed (foldl (add_entity originalText ae) m es)
   \<and> distinct (map_keys (foldl (add_entity originalText ae) m es))"
  by (induction es arbitrary: m) (simp_all add: keyed_add_entity distinct_add_entity)

lemma add_entities_invariant:
  "keyed (add_entities originalText items rs [])
   \<and> distinct (map_keys (add_entities originalText items rs []))"
  unfolding add_entities_def by (rule add_entity_fold_invariant) (simp_all add: map_keys_def)

lemma keep_best_append:
  assumes "entityType w = ty"
  shows "keep_best ty w m = without_type ty m @ [(ty @ ''-best'', w)]"
proof -
  have "startsWith (ty @ ''-best'') (ty @ ''-'')" by (simp add: startsWith_def)
  then have "ty @ ''-best'' \<notin> set (map_keys (without_type ty m))"
    by (auto simp: map_keys_def without_type_def)
  then show ?thesis
    unfolding keep_best_same_type [OF assms] without_type_def [symmetric] by (rule map_set_new)
qed

lemma keyed_without_type: "keyed m \<Longrightarrow> keyed (without_type ty m)"
  by (simp add: keyed_def without_type_def)

lemma distinct_without_type: "distinct (map_keys m) \<Longrightarrow> distinct (map_keys (without_type ty m))"
  by (simp add: map_keys_def without_type_def distinct_map_filter)

lemma without_type_same:
  assumes "keyed m"
  shows "filter (\<lambda>e. entityType e = ty) (map_values (without_type ty m)) = []"
proof -
  have "entityType (snd kv) \<noteq> ty" if "kv \<in> set (without_type ty m)" for kv
  proof
    assume "entityType (snd kv) = ty"
    moreover from that have "kv \<in> set m" "\<not> startsWith (fst kv) (ty @ ''-'')"
      by (simp_all add: without_type_def)
    ultimately show False using assms by (auto simp: keyed_def)
  qed
  then show ?thesis by (auto simp: filter_empty_conv map_values_def)
qed

lemma without_type_other:
  assumes "keyed m"
    and "\<not> prefix (ty @ ''-'') (ty' @ ''-'')" "\<not> prefix (ty' @ ''-'') (ty @ ''-'')"
  shows "filter (\<lambda>kv. entityType (snd kv) = ty') (without_type ty m)
           = filter (\<lambda>kv. entityType (snd kv) = ty') m"
proof -
  have "\<not> startsWith (fst kv) (ty @ ''-'')" if "kv \<in> set m" "entityType (snd kv) = ty'" for kv
  proof
    assume "startsWith (fst kv) (ty @ ''-'')"
    moreover from that assms(1) have "startsWith (fst kv) (ty' @ ''-'')" by (auto simp: keyed_def)
    ultimately have "prefix (ty @ ''-'') (ty' @ ''-'') \<or> prefix (ty' @ ''-'') (ty @ ''-'')"
      unfolding startsWith_def by (rule prefix_same_cases)
    with assms(2,3) show False by blast
  qed
  then show ?thesis unfolding without_type_def filter_filter by (intro filter_cong) auto
qed

lemma values_filter_type:
  "filter (\<lambda>e. entityType e = ty) (map_values m) = map snd (filter (\<lambda>kv. entityType (snd kv) = ty) m)"
  by (simp add: map_values_def filter_map comp_def)

subsection \<open>The reduction\<close>

lemma findBestMatch_unchanged:
  "length (filter (\<lambda>e. entityType e = ty) (map_values m)) \<le> 1 \<Longrightarrow> findBestMatch ty m = m"
  by (simp add: findBestMatch_eq)

lemma findBestMatch_reduced:
  assumes ty: "ty = ''PERSON'' \<or> ty = ''PHONE_NUMBER''"
    and many: "1 < length (filter (\<lambda>e. entityType e = ty) (map_values m))"
  shows "\<exists>w \<in> set (map_values m). entityType w = ty
           \<and> findBestMatch ty m = without_type ty m @ [(ty @ ''-best'', w)]"
proof -
  from ty have "ty = ''PERSON'' \<and> (if ty = ''PERSON'' then '' '' else ''+'') = '' ''
      \<or> ty = ''PHONE_NUMBER'' \<and> (if ty = ''PERSON'' then '' '' else ''+'') = ''+''"
    by auto
  from findBestMatch_winner [OF this many] obtain pre w post where
    dec: "filter (\<lambda>e. entityType e = ty) (map_values m) = pre @ w # post"
    and fb: "findBestMatch ty m = keep_best ty w m"
    by blast
  have "w \<in> set (filter (\<lambda>e. entityType e = ty) (map_values m))" by (subst dec) simp
  then have w: "w \<in> set (map_values m)" "entityType w = ty" by simp_all
  with fb keep_best_append [OF w(2), of m] show ?thesis by auto
qed

lemma map_get_member:
  "distinct (map_keys m) \<Longrightarrow> (k, v) \<in> set m \<Longrightarrow> map_get m k = Some v"
  by (simp add: map_get_def map_keys_def)

lemma best_not_in_without_type: "ty @ ''-best'' \<notin> set (map_keys (without_type ty m))"
  by (auto simp: map_keys_def without_type_def startsWith_def)

lemma findBestMatch_invariant:
  assumes "keyed m" "distinct (map_keys m)" "ty = ''PERSON'' \<or> ty = ''PHONE_NUMBER''"
  shows "keyed (findBestMatch ty m) \<and> distinct (map_keys (findBestMatch ty m))
         \<and> length (filter (\<lambda>e. entityType e = ty) (map_values (findBestMatch ty m))) \<le> 1"
proof (cases "length (filter (\<lambda>e. entityType e = ty) (map_values m)) \<le> 1")
  case True
  with assms show ?thesis by (simp add: findBestMatch_unchanged)
next
  case False
  then have "1 < length (filter (\<lambda>e. entityType e = ty) (map_values m))" by simp
  from findBestMatch_reduced [OF assms(3) this] obtain w where
    w: "entityType w = ty" and eq: "findBestMatch ty m = without_type ty m @ [(ty @ ''-best'', w)]"
    by blast
  have "keyed (without_type ty m @ [(ty @ ''-best'', w)])"
    using keyed_without_type [OF assms(1), of ty] w by (auto simp: keyed_def startsWith_def)
  moreover have "distinct (map_keys (without_type ty m @ [(ty @ ''-best'', w)]))"
    using distinct_without_type [OF assms(2), of ty] best_not_in_without_type [of ty m]
    by (simp add: map_keys_def)
  moreover have "filter (\<lambda>e. entityType e = ty) (map_values (without_type ty m @ [(ty @ ''-best'', w)])) = [w]"
    using without_type_same [OF assms(1), of ty] w by (simp add: map_values_def)
  ultimately show ?thesis by (simp add: eq)
qed

lemma reduced_step:
  assumes "keyed m" "distinct (map_keys m)" "ty = ''PERSON'' \<or> ty = ''PHONE_NUMBER''"
    and many: "1 < length (filter (\<lambda>e. entityType e = ty) (map_values m))"
  shows "\<exists>w \<in> set (map_values m). reduced_to ty w (findBestMatch ty m)"
proof -
  from findBestMatch_reduced [OF assms(3) many] obtain w where
    wm: "w \<in> set (map_values m)" and w: "entityType w = ty"
    and eq: "findBestMatch ty m = without_type ty m @ [(ty @ ''-best'', w)]"
    by blast
  let ?r = "without_type ty m @ [(ty @ ''-best'', w)]"
  have d: "distinct (map_keys ?r)"
    using findBestMatch_invariant [OF assms(1-3)] by (simp add: eq)
  have "map_get ?r (ty @ ''-best'') = Some w"
    by (rule map_get_member [OF d]) simp
  moreover have "filter (\<lambda>e. entityType e = ty) (map_values ?r) = [w]"
    using without_type_same [OF assms(1), of ty] w by (simp add: map_values_def)
  moreover have "\<forall>k \<in> set (map_keys ?r). startsWith k (ty @ ''-'') \<longrightarrow> k = ty @ ''-best''"
    by (auto simp: map_keys_def without_type_def)
  ultimately have "reduced_to ty w ?r" using w by (simp add: reduced_to_def)
  with wm eq show ?thesis by auto
qed

lemma two_types_apart:
  assumes "ty = ''PERSON'' \<or> ty = ''PHONE_NUMBER''" "ty' = ''PERSON'' \<or> ty' = ''PHONE_NUMBER''"
    and "ty \<noteq> ty'"
  shows "\<not> prefix (ty @ ''-'') (ty' @ ''-'')" "\<not> prefix (ty' @ ''-'') (ty @ ''-'')"
    "\<not> prefix (ty @ ''-'') (ty' @ ''-best'')"
  using assms by auto

lemma findBestMatch_other:
  assumes "keyed m" "ty = ''PERSON'' \<or> ty = ''PHONE_NUMBER''" "ty' = ''PERSON'' \<or> ty' = ''PHONE_NUMBER''"
    and "ty \<noteq> ty'"
  shows "filter (\<lambda>kv. entityType (snd kv) = ty') (findBestMatch ty m)
           = filter (\<lambda>kv. entityType (snd kv) = ty') m"
proof (cases "length (filter (\<lambda>e. entityType e = ty) (map_values m)) \<le> 1")
  case True
  then show ?thesis by (simp add: findBestMatch_unchanged)
next
  case False
  then have "1 < length (filter (\<lambda>e. entityType e = ty) (map_values m))" by simp
  from findBestMatch_reduced [OF assms(2) this] obtain w where
    w: "entityType w = ty" and eq: "findBestMatch ty m = without_type ty m @ [(ty @ ''-best'', w)]"
    by blast
  from without_type_other [OF assms(1) two_types_apart(1,2) [OF assms(2-4)]] w assms(4)
  show ?thesis by (simp add: eq)
qed

lemma reduced_preserved:
  assumes r: "reduced_to ty' w m" and "keyed m" "distinct (map_keys m)"
    and tys: "ty = ''PERSON'' \<or> ty = ''PHONE_NUMBER''" "ty' = ''PERSON'' \<or> ty' = ''PHONE_NUMBER''"
      "ty \<noteq> ty'"
  shows "reduced_to ty' w (findBestMatch ty m)"
proof (cases "length (filter (\<lambda>e. entityType e = ty) (map_values m)) \<le> 1")
  case True
  with r show ?thesis by (simp add: findBestMatch_unchanged)
next
  case False
  then have "1 < length (filter (\<lambda>e. entityType e = ty) (map_values m))" by simp
  from findBestMatch_reduced [OF tys(1) this] obtain w' where
    eq: "findBestMatch ty m = without_type ty m @ [(ty @ ''-best'', w')]"
    by blast
  let ?r = "without_type ty m @ [(ty @ ''-best'', w')]"
  have d: "distinct (map_keys ?r)"
    using findBestMatch_invariant [OF assms(2,3) tys(1)] by (simp add: eq)
  from r have "map_of m (ty' @ ''-best'') = Some w" by (simp add: reduced_to_def map_get_def)
  then have "(ty' @ ''-best'', w) \<in> set m" by (rule map_of_SomeD)
  moreover have "\<not> startsWith (ty' @ ''-best'') (ty @ ''-'')"
    using two_types_apart(3) [OF tys] by (simp add: startsWith_def)
  ultimately have "(ty' @ ''-best'', w) \<in> set ?r" by (simp add: without_type_def)
  with d have get: "map_get ?r (ty' @ ''-best'') = Some w" by (rule map_get_member)
  have "filter (\<lambda>e. entityType e = ty') (map_values (findBestMatch ty m))
          = filter (\<lambda>e. entityType e = ty') (map_values m)"
    unfolding values_filter_type findBestMatch_other [OF assms(2) tys] ..
  with r have vals: "filter (\<lambda>e. entityType e = ty') (map_values ?r) = [w]"
    by (simp add: eq reduced_to_def)
  have "\<not> startsWith (ty @ ''-best'') (ty' @ ''-'')"
    using two_types_apart(3) [OF tys(2,1)] tys(3) by (simp add: startsWith_def)
  with r have keys: "\<forall>k \<in> set (map_keys ?r). startsWith k (ty' @ ''-'') \<longrightarrow> k = ty' @ ''-best''"
    by (auto simp: reduced_to_def map_keys_def without_type_def)
  from r get vals keys show ?thesis by (simp add: eq reduced_to_def)
qed

subsection \<open>Literal replacement\<close>

lemma js_includes_iff: "js_includes s p \<longleftrightarrow> (\<exists>u v. s = u @ p @ v)"
proof (induction s)
  case Nil
  show ?case by auto
next
  case (Cons c cs)
  show ?case
  proof
    assume "js_includes (c # cs) p"
    then consider "prefix p (c # cs)" | "js_includes cs p" by auto
    then show "\<exists>u v. c # cs = u @ p @ v"
    proof cases
      case 1
      then obtain v where "c # cs = p @ v" by (auto simp: prefix_def)
      then have "c # cs = [] @ p @ v" by simp
      then show ?thesis by blast
    next
      case 2
      with Cons obtain u v where "cs = u @ p @ v" by blast
      then have "c # cs = (c # u) @ p @ v" by simp
      then show ?thesis by blast
    qed
  next
    assume "\<exists>u v. c # cs = u @ p @ v"
    then obtain u v where eq: "c # cs = u @ p @ v" by blast
    show "js_includes (c # cs) p"
    proof (cases u)
      case Nil
      with eq have "prefix p (c # cs)" by (simp add: prefix_def)
      then show ?thesis by simp
    next
      case (Cons d u')
      with eq have "cs = u' @ p @ v" by simp
      with Cons.IH have "js_includes cs p" by blast
      then show ?thesis by simp
    qed
  qed
qed

lemma js_includes_append:
  "js_includes s p \<Longrightarrow> js_includes (u @ s @ v) p"
proof -
  assume "js_includes s p"
  then obtain a b where "s = a @ p @ b" unfolding js_includes_iff by blast
  then have "u @ s @ v = (u @ a) @ p @ (b @ v)" by simp
  then show ?thesis unfolding js_includes_iff by blast
qed

lemma not_includes_parts:
  assumes "\<not> js_includes (x @ y) p"
  shows "\<not> js_includes x p" "\<not> js_includes y p"
  using assms js_includes_append [of x p "[]" y] js_includes_append [of y p x "[]"] by auto

lemma replace_lit_Nil: "replace_lit p r [] = []"
  by (subst replace_lit.simps) auto

lemma replace_lit_match:
  "p \<noteq> [] \<Longrightarrow> replace_lit p r (p @ s) = r @ replace_lit p r s"
  by (subst replace_lit.simps) simp

lemma replace_lit_step:
  "\<not> prefix p (c # cs) \<Longrightarrow> replace_lit p r (c # cs) = c # replace_lit p r cs"
  by (subst replace_lit.simps) simp

lemma replace_lit_no_match: "\<not> js_includes s p \<Longrightarrow> replace_lit p r s = s"
  by (induction s) (simp_all add: replace_lit_Nil replace_lit_step)

lemma token_shape:
  assumes "token p"
  obtains n where "p = CHR ''['' # n @ '']''" "CHR ''['' \<notin> set n" "CHR '']'' \<notin> set n"
proof -
  from assms obtain r where p: "p = CHR ''['' # r" and r: "r \<noteq> []" "last r = CHR '']''"
    "CHR ''['' \<notin> set r" "CHR '']'' \<notin> set (butlast r)"
    by (auto simp: token_def split: list.splits)
  from r(1,2) have "r = butlast r @ '']''" using append_butlast_last_id [of r] by simp
  moreover from r(3) have "CHR ''['' \<notin> set (butlast r)" by (auto dest: in_set_butlastD)
  ultimately show ?thesis using p r(4) that [of "butlast r"] by simp
qed

lemma replace_lit_barrier:
  assumes p: "p = CHR ''['' # n" "CHR ''['' \<notin> set n"
  shows "replace_lit p r (x @ CHR ''['' # y) = replace_lit p r x @ replace_lit p r (CHR ''['' # y)"
proof (induction "length x" arbitrary: x rule: less_induct)
  case less
  show ?case
  proof (cases x)
    case Nil
    then show ?thesis by (simp add: replace_lit_Nil)
  next
    case (Cons c cs)
    show ?thesis
    proof (cases "prefix p x")
      case True
      then obtain x' where x: "x = p @ x'" by (auto simp: prefix_def)
      from p have ne: "p \<noteq> []" by simp
      with x have "length x' < length x" by simp
      from less [OF this]
      have "r @ replace_lit p r (x' @ CHR ''['' # y)
              = (r @ replace_lit p r x') @ replace_lit p r (CHR ''['' # y)"
        by simp
      then have "replace_lit p r (p @ (x' @ CHR ''['' # y))
              = replace_lit p r (p @ x') @ replace_lit p r (CHR ''['' # y)"
        unfolding replace_lit_match [OF ne] .
      then show ?thesis by (simp add: x)
    next
      case False
      have "\<not> prefix p (x @ CHR ''['' # y)"
      proof
        assume "prefix p (x @ CHR ''['' # y)"
        with False obtain us where us: "p = x @ us" "prefix us (CHR ''['' # y)"
          by (auto simp: prefix_append)
        with False have "us \<noteq> []" by auto
        with us(2) obtain us' where "us = CHR ''['' # us'" by (cases us) auto
        with us(1) Cons p(1) have "CHR ''['' \<in> set n" by auto
        with p(2) show False by blast
      qed
      with False Cons less [of cs] show ?thesis by (simp add: replace_lit_step)
    qed
  qed
qed

lemma replace_lit_no_open:
  assumes "p = CHR ''['' # n" "CHR ''['' \<notin> set w"
  shows "replace_lit p r (w @ y) = w @ replace_lit p r y"
  using assms(2)
proof (induction w)
  case Nil
  show ?case by simp
next
  case (Cons c w)
  then have "\<not> prefix p (c # w @ y)" using assms(1) by auto
  with Cons show ?case by (simp add: replace_lit_step)
qed

lemma token_prefix_eq:
  assumes "token p" "token q" "prefix p (q @ y)"
  shows "p = q"
proof -
  from assms(1) obtain n where p: "p = CHR ''['' # n @ '']''" "CHR '']'' \<notin> set n"
    by (rule token_shape)
  from assms(2) obtain k where q: "q = CHR ''['' # k @ '']''" "CHR '']'' \<notin> set k"
    by (rule token_shape)
  from assms(3) obtain z where "q @ y = p @ z" by (auto simp: prefix_def)
  with p q have eq: "k @ CHR '']'' # y = n @ CHR '']'' # z" by simp
  have "takeWhile (\<lambda>c. c \<noteq> CHR '']'') (k @ CHR '']'' # y) = k"
    using q(2) by (subst takeWhile_append2) auto
  moreover have "takeWhile (\<lambda>c. c \<noteq> CHR '']'') (n @ CHR '']'' # z) = n"
    using p(2) by (subst takeWhile_append2) auto
  ultimately have "k = n" using eq by simp
  with p q show ?thesis by simp
qed

lemma replace_at_token:
  assumes "token p"
  shows "replace_lit p r (x @ p @ y) = replace_lit p r x @ r @ replace_lit p r y"
proof -
  from assms obtain n where p: "p = CHR ''['' # n @ '']''" "CHR ''['' \<notin> set n"
    by (rule token_shape)
  then have "CHR ''['' \<notin> set (n @ '']'')" by simp
  from replace_lit_barrier [OF p(1) this, of r x "(n @ '']'') @ y"]
  have "replace_lit p r (x @ p @ y) = replace_lit p r x @ replace_lit p r (p @ y)"
    using p(1) by simp
  moreover from p(1) have "p \<noteq> []" by simp
  then have "replace_lit p r (p @ y) = r @ replace_lit p r y" by (rule replace_lit_match)
  ultimately show ?thesis by (simp only:)
qed

lemma replace_skips_token:
  assumes "token p" "token q" "p \<noteq> q"
  shows "replace_lit p r (x @ q @ y) = replace_lit p r x @ q @ replace_lit p r y"
proof -
  from assms(1) obtain n where p: "p = CHR ''['' # n @ '']''" "CHR ''['' \<notin> set n"
    by (rule token_shape)
  from assms(2) obtain k where q: "q = CHR ''['' # k @ '']''" "CHR ''['' \<notin> set k"
    by (rule token_shape)
  from p have n: "CHR ''['' \<notin> set (n @ '']'')" by simp
  from q have k: "CHR ''['' \<notin> set (k @ '']'')" by simp
  have "\<not> prefix p (q @ y)" using token_prefix_eq [OF assms(1,2)] assms(3) by blast
  then have "replace_lit p r (q @ y) = CHR ''['' # replace_lit p r ((k @ '']'') @ y)"
    using q(1) by (simp add: replace_lit_step)
  also have "\<dots> = CHR ''['' # (k @ '']'') @ replace_lit p r y"
    using replace_lit_no_open [OF p(1) k, of r y] by simp
  finally have "replace_lit p r (q @ y) = q @ replace_lit p r y" using q(1) by simp
  moreover from replace_lit_barrier [OF p(1) n, of r x "(k @ '']'') @ y"]
  have "replace_lit p r (x @ q @ y) = replace_lit p r x @ replace_lit p r (q @ y)"
    using q(1) by simp
  ultimately show ?thesis by simp
qed

subsection \<open>Restoring a text whose spans carry bracketed placeholders\<close>

lemma text_of_Cons: "text_of (seg # segs) = seg_original seg @ text_of segs"
  by (simp add: text_of_def)

lemma current_text_Cons: "current_text P (seg # segs) = seg_current P seg @ current_text P segs"
  by (simp add: current_text_def)

lemma restore_one:
  assumes p: "token p"
    and segs: "\<forall>ty s sc. Detected ty s sc \<in> set segs \<longrightarrow>
                 token (new_value ty) \<and> (new_value ty = p \<longrightarrow> s = orig)"
    and free: "\<not> js_includes (x @ text_of segs) p"
  shows "replace_lit p orig (x @ current_text P segs) = x @ current_text (insert p P) segs"
  using segs free
proof (induction segs arbitrary: x)
  case Nil
  then show ?case by (simp add: current_text_def text_of_def replace_lit_no_match)
next
  case (Cons seg segs)
  from Cons.prems(1) have rest: "\<forall>ty s sc. Detected ty s sc \<in> set segs \<longrightarrow>
      token (new_value ty) \<and> (new_value ty = p \<longrightarrow> s = orig)"
    by simp
  show ?case
  proof (cases seg)
    case (Plain s)
    with Cons.prems(2) have "\<not> js_includes ((x @ s) @ text_of segs) p"
      by (simp add: text_of_Cons)
    from Cons.IH [OF rest this] Plain show ?thesis by (simp add: current_text_Cons)
  next
    case (Detected ty s sc)
    with Cons.prems(1) have q: "token (new_value ty)" "new_value ty = p \<longrightarrow> s = orig"
      by simp_all
    from Cons.prems(2) Detected have whole: "\<not> js_includes ((x @ s) @ text_of segs) p"
      by (simp add: text_of_Cons)
    then have x: "\<not> js_includes x p" and tl: "\<not> js_includes ([] @ text_of segs) p"
      using not_includes_parts [of "x @ s" "text_of segs" p] not_includes_parts [of x s p]
      by simp_all
    from Cons.IH [OF rest tl]
    have tail: "replace_lit p orig (current_text P segs) = current_text (insert p P) segs"
      by simp
    show ?thesis
    proof (cases "new_value ty \<in> P")
      case True
      with Detected Cons.IH [OF rest whole] show ?thesis
        by (simp add: current_text_Cons)
    next
      case False
      show ?thesis
      proof (cases "new_value ty = p")
        case True
        with q(2) have "s = orig" by simp
        with True False Detected tail x p(1) show ?thesis
          by (simp add: current_text_Cons replace_at_token replace_lit_no_match)
      next
        case neq: False
        then have "p \<noteq> new_value ty" by blast
        from replace_skips_token [OF p(1) q(1) this, of orig x "current_text P segs"]
          neq False Detected tail x
        show ?thesis by (simp add: current_text_Cons replace_lit_no_match)
      qed
    qed
  qed
qed

lemma restore_many:
  assumes toks: "\<forall>ty s sc. Detected ty s sc \<in> set segs \<longrightarrow> token (new_value ty)"
    and uniq: "\<forall>ty s sc ty' s' sc'. Detected ty s sc \<in> set segs \<and> Detected ty' s' sc' \<in> set segs
                 \<and> new_value ty = new_value ty' \<longrightarrow> s = s'"
    and free: "\<forall>ty s sc. Detected ty s sc \<in> set segs \<longrightarrow> \<not> js_includes (text_of segs) (new_value ty)"
  shows "(\<forall>e \<in> set es. \<exists>ty sc. Detected ty (snd e) sc \<in> set segs \<and> fst e = new_value ty) \<Longrightarrow>
         foldl (\<lambda>s e. replace_lit (fst e) (snd e) s) (current_text P segs) es
           = current_text (P \<union> set (map fst es)) segs"
proof (induction es arbitrary: P)
  case Nil
  show ?case by simp
next
  case (Cons e es)
  from Cons.prems(1) obtain ty sc where
    e: "Detected ty (snd e) sc \<in> set segs" "fst e = new_value ty"
    by auto
  from e toks have tok: "token (fst e)" by auto
  have segs: "\<forall>ty' s' sc'. Detected ty' s' sc' \<in> set segs \<longrightarrow>
      token (new_value ty') \<and> (new_value ty' = fst e \<longrightarrow> s' = snd e)"
  proof (intro allI impI conjI)
    fix ty' s' sc'
    assume d: "Detected ty' s' sc' \<in> set segs"
    with toks show "token (new_value ty')" by blast
    assume "new_value ty' = fst e"
    with e(2) have "new_value ty' = new_value ty" by simp
    with uniq d e(1) show "s' = snd e" by blast
  qed
  from free e have "\<not> js_includes ([] @ text_of segs) (fst e)" by auto
  from restore_one [OF tok segs this]
  have step: "replace_lit (fst e) (snd e) (current_text P segs) = current_text (insert (fst e) P) segs"
    by simp
  from Cons.prems have "\<forall>e \<in> set es. \<exists>ty sc. Detected ty (snd e) sc \<in> set segs \<and> fst e = new_value ty"
    by auto
  from Cons.IH [OF this] step show ?case by simp
qed

lemma current_text_start: "current_text {} segs = anonymized_text segs"
proof -
  have "seg_current {} seg = seg_anonymized seg" for seg by (cases seg) simp_all
  then have "seg_current {} = seg_anonymized" by (rule ext)
  then show ?thesis by (simp add: current_text_def anonymized_text_def)
qed

lemma current_text_done:
  assumes "\<forall>ty s sc. Detected ty s sc \<in> set segs \<longrightarrow> new_value ty \<in> P"
  shows "current_text P segs = text_of segs"
proof -
  have "seg_current P seg = seg_original seg" if "seg \<in> set segs" for seg
  proof (cases seg)
    case (Plain s)
    then show ?thesis by simp
  next
    case (Detected ty s sc)
    with that assms have "new_value ty \<in> P" by blast
    with Detected show ?thesis by simp
  qed
  then have "map (seg_current P) segs = map seg_original segs" by (intro map_cong) simp_all
  then show ?thesis by (simp only: current_text_def text_of_def)
qed

subsection \<open>The regular expression and the replacement text\<close>

lemma backslash_special: "backslash \<in> set regex_syntax_chars"
  by (simp add: regex_syntax_chars_def)

lemma regex_literal_escape: "regex_literal (escape_regex p) = Some p"
proof (induction p)
  case Nil
  show ?case by simp
next
  case (Cons c cs)
  show ?case
  proof (cases "c \<in> set regex_syntax_chars")
    case True
    with Cons show ?thesis by simp
  next
    case False
    with backslash_special have "c \<noteq> backslash" by blast
    with False Cons show ?thesis by (cases "escape_regex cs") simp_all
  qed
qed

lemma dollar_pattern_Cons:
  "dollar_pattern (c # d # t) \<longleftrightarrow>
     c = CHR ''$'' \<and> (d = CHR ''$'' \<or> d = CHR ''&'' \<or> d = CHR 0x60 \<or> d = CHR 0x27)
     \<or> dollar_pattern (d # t)"
  by (auto simp: dollar_pattern_def substitution_patterns_def)

lemma getSubstitution_verbatim:
  "\<not> dollar_pattern r \<Longrightarrow> getSubstitution matched preceding following r = r"
  by (induction matched preceding following r rule: getSubstitution.induct)
    (auto simp: dollar_pattern_Cons)

lemma replace_from_verbatim:
  assumes "p \<noteq> []" "\<not> dollar_pattern r"
  shows "replace_from p r preceding s = replace_lit p r s"
proof (induction "length s" arbitrary: s preceding rule: less_induct)
  case less
  show ?case
  proof (cases "prefix p s")
    case True
    then obtain s' where s: "s = p @ s'" by (auto simp: prefix_def)
    with assms(1) have "length s' < length s" by simp
    from less [OF this, of "preceding @ p"] assms s show ?thesis
      by (subst replace_from.simps) (simp add: getSubstitution_verbatim replace_lit_match)
  next
    case False
    show ?thesis
    proof (cases s)
      case Nil
      with assms False show ?thesis
        by (subst replace_from.simps) (simp add: replace_lit_Nil)
    next
      case (Cons c cs)
      with less [of cs "preceding @ [c]"] assms False show ?thesis
        by (subst replace_from.simps) (simp add: replace_lit_step)
    qed
  qed
qed

lemma restore_all_verbatim:
  "\<forall>e \<in> set es. anonymized e \<noteq> [] \<and> \<not> dollar_pattern (original e) \<Longrightarrow>
   restore_all es s = Some (foldl (\<lambda>s e. replace_lit (anonymized e) (original e) s) s es)"
  by (induction es arbitrary: s)
    (simp_all add: regex_replace_all_def regex_literal_escape replace_from_verbatim)

subsection \<open>Every span has an entry of its type\<close>

lemma keys_map_set: "set (map_keys (map_set k v m)) = insert k (set (map_keys m))"
  by (auto simp: map_keys_def map_set_def update_keys)

lemma group_step_get:
  "map_get (group_step g r) k =
     (if k = ar_entity_type r
      then Some ((case map_get g (ar_entity_type r) of Some es \<Rightarrow> es | None \<Rightarrow> []) @ [r])
      else map_get g k)"
  by (simp add: group_step_def map_get_map_set)

lemma group_fold_covers:
  "r \<in> set rs \<or> (\<exists>es. map_get g (ar_entity_type r) = Some es \<and> r \<in> set es) \<Longrightarrow>
   \<exists>es. map_get (foldl group_step g rs) (ar_entity_type r) = Some es \<and> r \<in> set es"
proof (induction rs arbitrary: g)
  case Nil
  then show ?case by simp
next
  case (Cons r' rs)
  have "r \<in> set rs \<or> (\<exists>es. map_get (group_step g r') (ar_entity_type r) = Some es \<and> r \<in> set es)"
  proof (cases "r \<in> set rs")
    case True
    then show ?thesis by simp
  next
    case False
    with Cons.prems consider "r = r'"
      | "r \<noteq> r'" "\<exists>es. map_get g (ar_entity_type r) = Some es \<and> r \<in> set es"
      by auto
    then show ?thesis
    proof cases
      case 1
      then show ?thesis by (simp add: group_step_get)
    next
      case 2
      then show ?thesis by (auto simp: group_step_get)
    qed
  qed
  from Cons.IH [OF this] show ?case by simp
qed

lemma group_by_type_covers:
  assumes "r \<in> set rs"
  shows "\<exists>es. (ar_entity_type r, es) \<in> set (group_by_type rs) \<and> r \<in> set es"
proof -
  from assms group_fold_covers [of r rs "[]"]
  obtain es where "map_get (group_by_type rs) (ar_entity_type r) = Some es" "r \<in> set es"
    unfolding group_by_type_def by blast
  then show ?thesis unfolding map_get_def by (blast dest: map_of_SomeD)
qed

lemma group_fold_types:
  "\<forall>kv \<in> set g. \<forall>r \<in> set (snd kv). ar_entity_type r = fst kv \<Longrightarrow>
   \<forall>kv \<in> set (foldl group_step g rs). \<forall>r \<in> set (snd kv). ar_entity_type r = fst kv"
proof (induction rs arbitrary: g)
  case Nil
  then show ?case by simp
next
  case (Cons r' rs)
  define old where "old = (case map_get g (ar_entity_type r') of Some es \<Rightarrow> es | None \<Rightarrow> [])"
  have old: "\<forall>r \<in> set old. ar_entity_type r = ar_entity_type r'"
  proof (cases "map_of g (ar_entity_type r')")
    case None
    then show ?thesis by (simp add: old_def map_get_def)
  next
    case (Some es)
    then have "(ar_entity_type r', es) \<in> set g" by (rule map_of_SomeD)
    with Cons.prems have "\<forall>r \<in> set es. ar_entity_type r = ar_entity_type r'" by force
    with Some show ?thesis by (simp add: old_def map_get_def)
  qed
  have "\<forall>kv \<in> set (group_step g r'). \<forall>r \<in> set (snd kv). ar_entity_type r = fst kv"
  proof
    fix kv
    assume "kv \<in> set (group_step g r')"
    then have "kv = (ar_entity_type r', old @ [r']) \<or> kv \<in> set g"
      using set_map_set_subset [of "ar_entity_type r'" "old @ [r']" g]
      by (auto simp: group_step_def old_def)
    then show "\<forall>r \<in> set (snd kv). ar_entity_type r = fst kv"
    proof
      assume "kv = (ar_entity_type r', old @ [r'])"
      with old show ?thesis by simp
    next
      assume "kv \<in> set g"
      with Cons.prems show ?thesis by (rule bspec)
    qed
  qed
  from Cons.IH [OF this] show ?case by simp
qed

lemma group_by_type_types:
  "\<forall>kv \<in> set (group_by_type rs). \<forall>r \<in> set (snd kv). ar_entity_type r = fst kv"
  unfolding group_by_type_def by (rule group_fold_types) simp

lemma process_entity_keys:
  "set (map_keys pe) \<subseteq> set (map_keys (process_entity ty pe e))"
  "entity_key ty (ar_start e) (ar_end e) \<in> set (map_keys (process_entity ty pe e))"
  by (auto simp: process_entity_def Let_def keys_map_set map_has_iff)

lemma process_entity_fold_keys:
  "set (map_keys pe) \<subseteq> set (map_keys (foldl (process_entity ty) pe es))"
proof (induction es arbitrary: pe)
  case Nil
  show ?case by simp
next
  case (Cons e es)
  from process_entity_keys(1) [of pe ty e] Cons [of "process_entity ty pe e"]
  show ?case by auto
qed

lemma process_entity_fold_covers:
  "r \<in> set es \<Longrightarrow>
   entity_key ty (ar_start r) (ar_end r) \<in> set (map_keys (foldl (process_entity ty) pe es))"
proof (induction es arbitrary: pe)
  case Nil
  then show ?case by simp
next
  case (Cons e es)
  show ?case
  proof (cases "r = e")
    case True
    with process_entity_keys(2) [of ty e pe]
      process_entity_fold_keys [of "process_entity ty pe e" ty es]
    show ?thesis by auto
  next
    case False
    with Cons.prems have "r \<in> set es" by simp
    from Cons.IH [OF this] show ?thesis by simp
  qed
qed

lemma process_group_keys:
  "set (map_keys pe) \<subseteq> set (map_keys (foldl process_group pe gs))"
proof (induction gs arbitrary: pe)
  case Nil
  show ?case by simp
next
  case (Cons g gs)
  from process_entity_fold_keys [of pe "fst g" "sort_by span_compare (snd g)"]
    Cons [of "process_group pe g"]
  show ?case by (auto simp: process_group_def)
qed

lemma process_group_covers:
  "g \<in> set gs \<Longrightarrow> r \<in> set (snd g) \<Longrightarrow>
   entity_key (fst g) (ar_start r) (ar_end r) \<in> set (map_keys (foldl process_group pe gs))"
proof (induction gs arbitrary: pe)
  case Nil
  then show ?case by simp
next
  case (Cons g' gs)
  show ?case
  proof (cases "g = g'")
    case True
    from Cons.prems(2) have "r \<in> set (sort_by span_compare (snd g))" by (simp add: set_sort_by)
    then have "entity_key (fst g) (ar_start r) (ar_end r) \<in> set (map_keys (process_group pe g))"
      unfolding process_group_def by (rule process_entity_fold_covers)
    with True process_group_keys [of "process_group pe g'" gs] show ?thesis by auto
  next
    case False
    with Cons.prems have "g \<in> set gs" by simp
    from Cons.IH [OF this Cons.prems(2)] show ?thesis by simp
  qed
qed

lemma processedEntities_covers:
  assumes "r \<in> set rs"
  shows "span_key r \<in> set (map_keys (processedEntities rs))"
proof -
  from assms obtain es where "(ar_entity_type r, es) \<in> set (group_by_type rs)" "r \<in> set es"
    using group_by_type_covers by blast
  from process_group_covers [of "(ar_entity_type r, es)" "group_by_type rs" r "[]"] this
  show ?thesis by (simp add: processedEntities_def span_key_def)
qed

lemma process_entity_fold_spans:
  "\<forall>kv \<in> set pe. fst kv = span_key (snd kv) \<Longrightarrow> \<forall>r \<in> set es. ar_entity_type r = ty \<Longrightarrow>
   \<forall>kv \<in> set (foldl (process_entity ty) pe es). fst kv = span_key (snd kv)"
proof (induction es arbitrary: pe)
  case Nil
  then show ?case by simp
next
  case (Cons e es)
  have "\<forall>kv \<in> set (process_entity ty pe e). fst kv = span_key (snd kv)"
  proof
    fix kv
    assume "kv \<in> set (process_entity ty pe e)"
    then have "kv = (entity_key ty (ar_start e) (ar_end e), e) \<or> kv \<in> set pe"
      using set_map_set_subset [of "entity_key ty (ar_start e) (ar_end e)" e pe]
      by (auto simp: process_entity_def Let_def split: if_splits)
    with Cons.prems show "fst kv = span_key (snd kv)" by (auto simp: span_key_def)
  qed
  moreover from Cons.prems(2) have "\<forall>r \<in> set es. ar_entity_type r = ty" by simp
  ultimately show ?case using Cons.IH [of "process_entity ty pe e"] by simp
qed

lemma process_group_spans:
  "\<forall>kv \<in> set pe. fst kv = span_key (snd kv) \<Longrightarrow>
   \<forall>g \<in> set gs. \<forall>r \<in> set (snd g). ar_entity_type r = fst g \<Longrightarrow>
   \<forall>kv \<in> set (foldl process_group pe gs). fst kv = span_key (snd kv)"
proof (induction gs arbitrary: pe)
  case Nil
  then show ?case by simp
next
  case (Cons g gs)
  from Cons.prems(2) have "\<forall>r \<in> set (sort_by span_compare (snd g)). ar_entity_type r = fst g"
    by (simp add: set_sort_by)
  with Cons.prems(1) have "\<forall>kv \<in> set (process_group pe g). fst kv = span_key (snd kv)"
    unfolding process_group_def by (rule process_entity_fold_spans)
  moreover from Cons.prems(2) have "\<forall>g \<in> set gs. \<forall>r \<in> set (snd g). ar_entity_type r = fst g"
    by simp
  ultimately show ?case using Cons.IH [of "process_group pe g"] by simp
qed

lemma processedEntities_spans:
  "\<forall>kv \<in> set (processedEntities rs). fst kv = span_key (snd kv)"
  unfolding processedEntities_def
  by (rule process_group_spans) (simp_all add: group_by_type_types)

lemma add_entity_fold_keys:
  "set (map_keys m) \<subseteq> set (map_keys (foldl (add_entity originalText ae) m es))"
proof (induction es arbitrary: m)
  case Nil
  show ?case by simp
next
  case (Cons e es)
  have "set (map_keys m) \<subseteq> set (map_keys (add_entity originalText ae m e))"
    by (auto simp: add_entity_eq keys_map_set)
  with Cons [of "add_entity originalText ae m e"] show ?case by auto
qed

lemma add_entity_fold_covers:
  "r \<in> set es \<Longrightarrow> \<not> fragment originalText r \<Longrightarrow>
   span_key r \<in> set (map_keys (foldl (add_entity originalText ae) m es))"
proof (induction es arbitrary: m)
  case Nil
  then show ?case by simp
next
  case (Cons e es)
  show ?case
  proof (cases "r = e")
    case True
    with Cons.prems(2) have "span_key r \<in> set (map_keys (add_entity originalText ae m e))"
      by (simp add: add_entity_eq keys_map_set span_key_def)
    with add_entity_fold_keys [of "add_entity originalText ae m e" originalText ae es]
    show ?thesis by auto
  next
    case False
    with Cons.prems have "r \<in> set es" by simp
    from Cons.IH [OF this Cons.prems(2)] show ?thesis by simp
  qed
qed

lemma no_dash_prefix:
  assumes "CHR ''-'' \<notin> set a" "CHR ''-'' \<notin> set b" "prefix (a @ ''-'') (b @ ''-'' @ z)"
  shows "a = b"
proof -
  from assms(3) obtain y where eq: "b @ CHR ''-'' # z = a @ CHR ''-'' # y"
    by (auto simp: prefix_def)
  have "takeWhile (\<lambda>c. c \<noteq> CHR ''-'') (b @ CHR ''-'' # z) = b"
    using assms(2) by (subst takeWhile_append2) auto
  moreover have "takeWhile (\<lambda>c. c \<noteq> CHR ''-'') (a @ CHR ''-'' # y) = a"
    using assms(1) by (subst takeWhile_append2) auto
  ultimately show ?thesis using eq by simp
qed

lemma add_entities_covers:
  assumes dash: "\<forall>r \<in> set rs. CHR ''-'' \<notin> set (ar_entity_type r)"
    and frag: "\<forall>r \<in> set rs. \<not> fragment originalText r"
    and r: "r \<in> set rs"
  shows "\<exists>e \<in> set (map_values (add_entities originalText items rs [])).
           entityType e = ar_entity_type r"
proof -
  let ?pe = "processedEntities rs"
  let ?m = "add_entities originalText items rs []"
  from r have "span_key r \<in> set (map_keys ?pe)" by (rule processedEntities_covers)
  then obtain r' where in_pe: "(span_key r, r') \<in> set ?pe" by (auto simp: map_keys_def)
  with processedEntities_spans have same: "span_key r' = span_key r" by force
  from in_pe have "r' \<in> set (map_values ?pe)" by (force simp: map_values_def)
  with processedEntities_values have "r' \<in> set rs" by blast
  with frag have "\<not> fragment originalText r'" by blast
  with \<open>r' \<in> set (map_values ?pe)\<close> have "span_key r' \<in> set (map_keys ?m)"
    unfolding add_entities_def by (rule add_entity_fold_covers)
  with same obtain e where e: "(span_key r, e) \<in> set ?m" by (auto simp: map_keys_def)
  then have val: "e \<in> set (map_values ?m)" by (force simp: map_values_def)
  with values_add_entities [of originalText items rs "[]"] obtain r''
    where "r'' \<in> set (map_values ?pe)" "e = entry_of originalText (anonymizedEntities items) r''"
    by auto
  with processedEntities_values have "r'' \<in> set rs" "entityType e = ar_entity_type r''"
    by (auto simp: entry_of_def)
  with dash have d1: "CHR ''-'' \<notin> set (entityType e)" by simp
  from dash r have d2: "CHR ''-'' \<notin> set (ar_entity_type r)" by blast
  from add_entities_invariant [of originalText items rs] e
  have "startsWith (span_key r) (entityType e @ ''-'')" by (force simp: keyed_def)
  then have "prefix (entityType e @ ''-'')
      (ar_entity_type r @ ''-'' @ number_toString (ar_start r) @ ''-'' @ number_toString (ar_end r))"
    by (simp add: startsWith_def span_key_def entity_key_def)
  with d1 d2 have "entityType e = ar_entity_type r" by (rule no_dash_prefix)
  with val show ?thesis by blast
qed

lemma findBestMatch_covers:
  assumes k: "keyed m"
    and dash: "\<forall>e \<in> set (map_values m). CHR ''-'' \<notin> set (entityType e)"
    and ty: "ty = ''PERSON'' \<or> ty = ''PHONE_NUMBER''"
    and e: "e \<in> set (map_values m)"
  shows "\<exists>e' \<in> set (map_values (findBestMatch ty m)). entityType e' = entityType e"
proof (cases "length (filter (\<lambda>e. entityType e = ty) (map_values m)) \<le> 1")
  case True
  with e show ?thesis by (auto simp: findBestMatch_unchanged)
next
  case False
  then have "1 < length (filter (\<lambda>e. entityType e = ty) (map_values m))" by simp
  from findBestMatch_reduced [OF ty this] obtain w where
    w: "entityType w = ty" and eq: "findBestMatch ty m = without_type ty m @ [(ty @ ''-best'', w)]"
    by blast
  show ?thesis
  proof (cases "entityType e = ty")
    case True
    with w show ?thesis by (auto simp: eq map_values_def)
  next
    case other: False
    from e obtain key where kv: "(key, e) \<in> set m" by (auto simp: map_values_def)
    with k have st: "startsWith key (entityType e @ ''-'')" by (force simp: keyed_def)
    have "\<not> startsWith key (ty @ ''-'')"
    proof
      assume "startsWith key (ty @ ''-'')"
      with st have "prefix (entityType e @ ''-'') (ty @ ''-'') \<or> prefix (ty @ ''-'') (entityType e @ ''-'')"
        unfolding startsWith_def by (rule prefix_same_cases)
      moreover from ty have "CHR ''-'' \<notin> set ty" by auto
      moreover from dash e have "CHR ''-'' \<notin> set (entityType e)" by blast
      ultimately have "ty = entityType e"
        using no_dash_prefix [of ty "entityType e" "[]"] no_dash_prefix [of "entityType e" ty "[]"]
        by auto
      with other show False by simp
    qed
    with kv have "(key, e) \<in> set (without_type ty m)" by (simp add: without_type_def)
    then have "e \<in> set (map_values (findBestMatch ty m))" by (force simp: eq map_values_def)
    then show ?thesis by blast
  qed
qed

lemma table_covers:
  assumes items: "items \<noteq> []"
    and dash: "\<forall>r \<in> set rs. CHR ''-'' \<notin> set (ar_entity_type r)"
    and frag: "\<forall>r \<in> set rs. \<not> fragment originalText r"
    and r: "r \<in> set rs"
  shows "\<exists>e \<in> set (map_values (buildEntityMapping originalText items rs [])).
           entityType e = ar_entity_type r"
proof -
  let ?m0 = "add_entities originalText items rs []"
  let ?m1 = "findBestMatch ''PHONE_NUMBER'' ?m0"
  have types: "CHR ''-'' \<notin> set (entityType e)" if "e \<in> set (map_values ?m0)" for e
  proof -
    from that values_add_entities [of originalText items rs "[]"] obtain r'
      where "r' \<in> set (map_values (processedEntities rs))"
        "e = entry_of originalText (anonymizedEntities items) r'"
      by auto
    with processedEntities_values have "r' \<in> set rs" "entityType e = ar_entity_type r'"
      by (auto simp: entry_of_def)
    with dash show ?thesis by simp
  qed
  from add_entities_covers [OF dash frag r, of items] obtain e0 where
    e0: "e0 \<in> set (map_values ?m0)" "entityType e0 = ar_entity_type r"
    by blast
  note inv0 = add_entities_invariant [of originalText items rs]
  from inv0 have k0: "keyed ?m0" by simp
  from types have d0: "\<forall>e \<in> set (map_values ?m0). CHR ''-'' \<notin> set (entityType e)" by blast
  from findBestMatch_covers [OF k0 d0 _ e0(1), of "''PHONE_NUMBER''"] e0(2) obtain e1 where
    e1: "e1 \<in> set (map_values ?m1)" "entityType e1 = ar_entity_type r"
    by auto
  from inv0 have "keyed ?m1" using findBestMatch_invariant [of ?m0 "''PHONE_NUMBER''"] by simp
  moreover have "\<forall>e \<in> set (map_values ?m1). CHR ''-'' \<notin> set (entityType e)"
    using values_findBestMatch [of "''PHONE_NUMBER''" ?m0] types by blast
  ultimately obtain e2 where
    "e2 \<in> set (map_values (findBestMatch ''PERSON'' ?m1))" "entityType e2 = ar_entity_type r"
    using findBestMatch_covers [of ?m1 "''PERSON''" e1] e1 by auto
  with items show ?thesis by (auto simp: buildEntityMapping_def)
qed

subsection \<open>The types with a literal replacement\<close>

lemma map_filter_member:
  "x \<in> set xs \<Longrightarrow> f x = Some y \<Longrightarrow> y \<in> set (List.map_filter f xs)"
  by (induction xs) (auto split: option.splits)

lemma literal_type_entry:
  assumes "literal_type ty"
  shows "(ty, new_value ty) \<in> set literal_table"
proof -
  from assms obtain v where v: "map_of buildAnonymizersConfig ty = Some (Replace v)"
    by (auto simp: literal_type_def split: option.splits operator.splits)
  then have "(ty, Replace v) \<in> set buildAnonymizersConfig" by (rule map_of_SomeD)
  moreover have "(case (ty, Replace v) of (ty, operator) \<Rightarrow>
      (case operator of Replace v \<Rightarrow> Some (ty, v) | _ \<Rightarrow> None)) = Some (ty, v)"
    by simp
  ultimately have "(ty, v) \<in> set literal_table"
    unfolding literal_table_def by (rule map_filter_member)
  with v show ?thesis by (simp add: new_value_def)
qed

lemma literal_table_ok: "list_all literal_ok literal_table"
  by code_simp

lemma literal_type_ok: "literal_type ty \<Longrightarrow> literal_ok (ty, new_value ty)"
  using literal_table_ok literal_type_entry [of ty] by (simp add: list_all_iff)

lemma literal_type_no_dash: "literal_type ty \<Longrightarrow> CHR ''-'' \<notin> set ty"
  by (drule literal_type_ok) (simp add: literal_ok_def)

lemma literal_type_token: "literal_type ty \<Longrightarrow> token (new_value ty)"
  by (drule literal_type_ok) (simp add: literal_ok_def)

lemma token_nonempty: "token p \<Longrightarrow> p \<noteq> []"
  by (auto simp: token_def)

subsection \<open>Segments and spans\<close>

lemma spans_types: "map ar_entity_type (spans_from off segs) = map fst (detected segs)"
  by (induction off segs rule: spans_from.induct) simp_all

lemma detected_iff: "(ty, s) \<in> set (detected segs) \<longleftrightarrow> (\<exists>sc. Detected ty s sc \<in> set segs)"
  by (induction segs rule: detected.induct) auto

lemma substring_middle:
  "substring (x @ s @ y) (int (length x)) (int (length x + length s)) = s"
  by (simp add: substring_def Let_def)

lemma spans_sound:
  "r \<in> set (spans_from (length x) segs) \<Longrightarrow>
   \<exists>sc. Detected (ar_entity_type r)
          (substring (x @ text_of segs) (ar_start r) (ar_end r)) sc \<in> set segs"
proof (induction segs arbitrary: x)
  case Nil
  then show ?case by simp
next
  case (Cons seg segs)
  show ?case
  proof (cases seg)
    case (Plain s)
    with Cons.prems have "r \<in> set (spans_from (length (x @ s)) segs)" by simp
    from Cons.IH [OF this] Plain show ?thesis by (auto simp: text_of_Cons)
  next
    case (Detected ty s sc)
    with Cons.prems consider
      "r = \<lparr>ar_entity_type = ty, ar_start = int (length x), ar_end = int (length x + length s),
            ar_score = sc\<rparr>"
      | "r \<in> set (spans_from (length (x @ s)) segs)"
      by auto
    then show ?thesis
    proof cases
      case 1
      then show ?thesis
        using Detected substring_middle [of x s "text_of segs"] by (auto simp: text_of_Cons)
    next
      case 2
      from Cons.IH [OF this] Detected show ?thesis by (auto simp: text_of_Cons)
    qed
  qed
qed

lemma no_spans_no_change: "detected segs = [] \<Longrightarrow> anonymized_text segs = text_of segs"
proof (induction segs)
  case Nil
  show ?case by (simp add: anonymized_text_def text_of_def)
next
  case (Cons seg segs)
  then show ?case by (cases seg) (simp_all add: anonymized_text_def text_of_def)
qed

lemma anonymizeText_success:
  assumes "analyzer (fst (service_urls cfg) @ ''/analyze'') text = Inr (Some rs)"
    and "rs \<noteq> []"
    and "anonymizer (snd (service_urls cfg) @ ''/anonymize'') text rs = Inr data"
  shows "anonymizeText cfg analyzer anonymizer m text =
           (Inr (resp_text data,
                 buildEntityMapping text (case resp_items data of Some items \<Rightarrow> items | None \<Rightarrow> []) rs [] \<noteq> []),
            buildEntityMapping text (case resp_items data of Some items \<Rightarrow> items | None \<Rightarrow> []) rs [])"
  using assms
  by (cases "service_urls cfg")
    (simp add: anonymizeText_def anonymize_steps_def analyzeText_def post_anonymize_def Let_def)

lemma anonymizeText_nothing:
  assumes "analyzer (fst (service_urls cfg) @ ''/analyze'') text = Inr (Some [])"
  shows "anonymizeText cfg analyzer anonymizer m text = (Inr (text, False), [])"
  using assms
  by (cases "service_urls cfg")
    (simp add: anonymizeText_def anonymize_steps_def analyzeText_def)

subsection \<open>The round trip\<close>

lemma spans_of_segments:
  assumes "r \<in> set (spans_from 0 segs)"
  shows "(ar_entity_type r, substring (text_of segs) (ar_start r) (ar_end r)) \<in> set (detected segs)"
proof -
  from assms have "r \<in> set (spans_from (length ([] :: string)) segs)" by simp
  from spans_sound [OF this] show ?thesis unfolding detected_iff by simp
qed

lemma detected_has_span:
  assumes "(ty, s) \<in> set (detected segs)"
  shows "\<exists>r \<in> set (spans_from 0 segs). ar_entity_type r = ty"
proof -
  from assms have "ty \<in> set (map fst (detected segs))" by force
  then have "ty \<in> set (map ar_entity_type (spans_from 0 segs))" by (simp only: spans_types)
  then show ?thesis by auto
qed

lemma deanonymize_tokens:
  assumes literal: "\<forall>ts \<in> set (detected segs). literal_type (fst ts)"
    and free: "\<forall>ts \<in> set (detected segs). \<not> js_includes (text_of segs) (new_value (fst ts))"
    and same: "\<forall>ts \<in> set (detected segs). \<forall>ts' \<in> set (detected segs).
                 new_value (fst ts) = new_value (fst ts') \<longrightarrow> snd ts = snd ts'"
    and verbatim: "\<forall>ts \<in> set (detected segs). \<not> dollar_pattern (snd ts)"
    and entries: "\<forall>e \<in> set es. (entityType e, original e) \<in> set (detected segs)
                    \<and> anonymized e = new_value (entityType e)"
    and all: "\<forall>ts \<in> set (detected segs). \<exists>e \<in> set es. entityType e = fst ts"
  shows "restore_all es (anonymized_text segs) = Some (text_of segs)"
proof -
  let ?D = "detected segs"
  have tok: "token (new_value ty)" if "Detected ty s sc \<in> set segs" for ty s sc
  proof -
    from that have "(ty, s) \<in> set ?D" unfolding detected_iff by blast
    with literal have "literal_type ty" by force
    then show ?thesis by (rule literal_type_token)
  qed
  have uniq: "s = s'"
    if "Detected ty s sc \<in> set segs" "Detected ty' s' sc' \<in> set segs" "new_value ty = new_value ty'"
    for ty s sc ty' s' sc'
  proof -
    from that(1,2) have "(ty, s) \<in> set ?D" "(ty', s') \<in> set ?D" unfolding detected_iff by blast+
    with same that(3) show ?thesis by force
  qed
  have fr: "\<not> js_includes (text_of segs) (new_value ty)" if "Detected ty s sc \<in> set segs" for ty s sc
  proof -
    from that have "(ty, s) \<in> set ?D" unfolding detected_iff by blast
    with free show ?thesis by force
  qed
  have ok: "anonymized e \<noteq> [] \<and> \<not> dollar_pattern (original e)" if "e \<in> set es" for e
  proof -
    from that entries have d: "(entityType e, original e) \<in> set ?D"
      and a: "anonymized e = new_value (entityType e)"
      by blast+
    from d literal have "literal_type (entityType e)" by force
    then have "token (new_value (entityType e))" by (rule literal_type_token)
    with a have "anonymized e \<noteq> []" by (simp add: token_nonempty)
    moreover from d verbatim have "\<not> dollar_pattern (original e)" by force
    ultimately show ?thesis by blast
  qed
  define ps where "ps = map (\<lambda>e. (anonymized e, original e)) es"
  have fold: "restore_all es (anonymized_text segs)
      = Some (foldl (\<lambda>s e. replace_lit (fst e) (snd e) s) (current_text {} segs) ps)"
    using restore_all_verbatim [of es "anonymized_text segs"] ok
    by (simp add: ps_def foldl_map current_text_start)
  have member: "\<forall>e \<in> set ps. \<exists>ty sc. Detected ty (snd e) sc \<in> set segs \<and> fst e = new_value ty"
  proof
    fix e
    assume "e \<in> set ps"
    then obtain v where v: "v \<in> set es" "e = (anonymized v, original v)"
      by (auto simp: ps_def)
    with entries have d: "(entityType v, original v) \<in> set ?D"
      and a: "anonymized v = new_value (entityType v)"
      by blast+
    from d obtain sc where "Detected (entityType v) (original v) sc \<in> set segs"
      unfolding detected_iff by blast
    with v(2) a show "\<exists>ty sc. Detected ty (snd e) sc \<in> set segs \<and> fst e = new_value ty"
      by auto
  qed
  have "foldl (\<lambda>s e. replace_lit (fst e) (snd e) s) (current_text {} segs) ps
          = current_text ({} \<union> set (map fst ps)) segs"
  proof (rule restore_many)
    show "\<forall>ty s sc. Detected ty s sc \<in> set segs \<longrightarrow> token (new_value ty)"
      using tok by blast
    show "\<forall>ty s sc ty' s' sc'. Detected ty s sc \<in> set segs \<and> Detected ty' s' sc' \<in> set segs
                 \<and> new_value ty = new_value ty' \<longrightarrow> s = s'"
      using uniq by blast
    show "\<forall>ty s sc. Detected ty s sc \<in> set segs \<longrightarrow> \<not> js_includes (text_of segs) (new_value ty)"
      using fr by blast
    show "\<forall>e \<in> set ps. \<exists>ty sc. Detected ty (snd e) sc \<in> set segs \<and> fst e = new_value ty"
      by (rule member)
  qed
  also have "\<dots> = text_of segs"
  proof (rule current_text_done, intro allI impI)
    fix ty s sc
    assume "Detected ty s sc \<in> set segs"
    then have "(ty, s) \<in> set ?D" unfolding detected_iff by blast
    with all obtain e where e: "e \<in> set es" "entityType e = ty" by force
    with entries have "anonymized e = new_value ty" by auto
    with e(1) have "new_value ty \<in> set (map fst ps)" by (force simp: ps_def)
    then show "new_value ty \<in> {} \<union> set (map fst ps)" by simp
  qed
  finally show ?thesis using fold by simp
qed

section \<open>The claims\<close>

text \<open>
  C2, as the specification gives the scenario: with the \<^verbatim>\<open>PHONE_NUMBER\<close> span at
  \<open>[52,67)\<close> the text has only 66 code units and the number begins at 50, so the original
  value recorded for \<^verbatim>\<open>[PHONE]\<close> is \<^verbatim>\<open>" 555-123-4567."\<close>. \<^verbatim>\<open>anonymizeText\<close> returns the
  anonymizer's text with \<^verbatim>\<open>entitiesFound\<close> true, but \<^verbatim>\<open>deanonymizeText\<close> does not give
  the input back.
\<close>

theorem scenario_as_specified_counterexample:
  "fst (anonymizeText no_config (constant_analyzer scenario_spans_as_specified)
          (constant_anonymizer scenario_anonymized scenario_items) [] scenario_text)
     = Inr (scenario_anonymized, True)
   \<and> deanonymizeText
         (snd (anonymizeText no_config (constant_analyzer scenario_spans_as_specified)
                 (constant_anonymizer scenario_anonymized scenario_items) [] scenario_text))
         scenario_anonymized
       = Some ''Hello, my name is John Doe and my phone number is  555-123-4567..''
   \<and> deanonymizeText
         (snd (anonymizeText no_config (constant_analyzer scenario_spans_as_specified)
                 (constant_anonymizer scenario_anonymized scenario_items) [] scenario_text))
         scenario_anonymized
       \<noteq> Some scenario_text"
  by code_simp

text \<open>
  C2, amended: for the same text, with the \<^verbatim>\<open>PERSON\<close> span \<open>[18,26)\<close> and the
  \<^verbatim>\<open>PHONE_NUMBER\<close> span \<open>[50,65)\<close>, where the number is, \<^verbatim>\<open>anonymizeText\<close> returns the
  anonymizer's text \<^verbatim>\<open>"Hello, my name is [PERSON] and my phone number is [PHONE]."\<close> with
  \<^verbatim>\<open>entitiesFound\<close> true, and \<^verbatim>\<open>deanonymizeText\<close> of that text returns the input.
\<close>

theorem scenario_round_trip:
  "fst (anonymizeText no_config (constant_analyzer scenario_spans)
          (constant_anonymizer scenario_anonymized scenario_items) [] scenario_text)
     = Inr (''Hello, my name is [PERSON] and my phone number is [PHONE].'', True)
   \<and> deanonymizeText
         (snd (anonymizeText no_config (constant_analyzer scenario_spans)
                 (constant_anonymizer scenario_anonymized scenario_items) [] scenario_text))
         ''Hello, my name is [PERSON] and my phone number is [PHONE].''
       = Some ''Hello, my name is John Doe and my phone number is +1 555-123-4567.''
   \<and> scenario_text = ''Hello, my name is John Doe and my phone number is +1 555-123-4567.''"
  by code_simp

text \<open>
  C3: when the request to the analyzer fails, or the analyzer answers and the request to the
  anonymizer fails, \<^verbatim>\<open>anonymizeText\<close> throws nothing: it returns the input text with
  \<^verbatim>\<open>entitiesFound\<close> false (and leaves the table empty).
\<close>

theorem anonymizeText_soft_fail:
  assumes "analyzer (fst (service_urls cfg) @ ''/analyze'') text = Inl e
           \<or> (analyzer (fst (service_urls cfg) @ ''/analyze'') text = Inr (Some rs)
               \<and> anonymizer (snd (service_urls cfg) @ ''/anonymize'') text rs = Inl e)"
  shows "anonymizeText cfg analyzer anonymizer m text = (Inr (text, False), [])"
  using assms
  by (auto simp: anonymizeText_def anonymize_steps_def analyzeText_def post_anonymize_def
      split: prod.splits sum.splits option.splits)

theorem anonymizeText_soft_fail_witness:
  "anonymizeText no_config failing_analyzer failing_anonymizer [] ''John Doe''
     = (Inr (''John Doe'', False), [])
   \<and> constant_analyzer [mk_span ''PERSON'' 0 8 (9 / 10)]
        (fst (service_urls no_config) @ ''/analyze'') ''John Doe''
       = Inr (Some [mk_span ''PERSON'' 0 8 (9 / 10)])
   \<and> failing_anonymizer (snd (service_urls no_config) @ ''/anonymize'') ''John Doe''
        [mk_span ''PERSON'' 0 8 (9 / 10)]
       = Inl \<lparr>err_code = None, err_status = Some 503\<rparr>
   \<and> anonymizeText no_config (constant_analyzer [mk_span ''PERSON'' 0 8 (9 / 10)])
        failing_anonymizer [] ''John Doe''
       = (Inr (''John Doe'', False), [])"
proof -
  let ?url = "fst (service_urls no_config) @ ''/analyze''"
  let ?rs = "[mk_span ''PERSON'' 0 8 (9 / 10)]"
  have a: "failing_analyzer ?url ''John Doe''
      = Inl \<lparr>err_code = Some ''ECONNREFUSED'', err_status = None\<rparr>"
    by (simp add: failing_analyzer_def)
  have b: "constant_analyzer ?rs ?url ''John Doe'' = Inr (Some ?rs)"
    by (simp add: constant_analyzer_def)
  have c: "failing_anonymizer (snd (service_urls no_config) @ ''/anonymize'') ''John Doe'' ?rs
        = Inl \<lparr>err_code = None, err_status = Some 503\<rparr>"
    by (simp add: failing_anonymizer_def)
  from anonymizeText_soft_fail [of failing_analyzer no_config "''John Doe''", OF disjI1, OF a]
    anonymizeText_soft_fail [of "constant_analyzer ?rs" no_config "''John Doe''" _ _ failing_anonymizer,
      OF disjI2, OF conjI, OF b c]
    b c
  show ?thesis by simp
qed

text \<open>
  C6: a normalized span of type \<^verbatim>\<open>PERSON\<close> whose slice of the text has fewer than three
  code units gets no entry: neither the table that the entry loop builds nor the table after
  the best-match reduction holds an entry of type \<^verbatim>\<open>PERSON\<close> with the span's offsets.
\<close>

theorem short_person_excluded:
  assumes "r \<in> set (map_values (processedEntities analyzerResults))"
    and "ar_entity_type r = ''PERSON''"
    and "length (substring text (ar_start r) (ar_end r)) < 3"
  shows "\<not> (\<exists>v \<in> set (map_values (add_entities text items analyzerResults [])).
              entityType v = ''PERSON'' \<and> start v = ar_start r \<and> endp v = ar_end r)
       \<and> \<not> (\<exists>v \<in> set (map_values (buildEntityMapping text items analyzerResults [])).
              entityType v = ''PERSON'' \<and> start v = ar_start r \<and> endp v = ar_end r)"
proof -
  let ?S = "entry_of text (anonymizedEntities items)
            ` {e \<in> set (map_values (processedEntities analyzerResults)). \<not> fragment text e}"
  have no: "\<not> (entityType v = ''PERSON'' \<and> start v = ar_start r \<and> endp v = ar_end r)"
    if "v \<in> ?S" for v
    using that assms(3) by (auto simp: entry_of_def fragment_def)
  have a: "set (map_values (add_entities text items analyzerResults [])) \<subseteq> ?S"
    using values_add_entities [of "text" items analyzerResults "[]"] by simp
  have b: "set (map_values (buildEntityMapping text items analyzerResults [])) \<subseteq> ?S"
    using values_buildEntityMapping [of "text" items analyzerResults "[]"] by simp
  show ?thesis
  proof (intro conjI notI; elim bexE)
    fix v
    assume "v \<in> set (map_values (add_entities text items analyzerResults []))"
      and *: "entityType v = ''PERSON'' \<and> start v = ar_start r \<and> endp v = ar_end r"
    with a have "v \<in> ?S" by (rule_tac subsetD)
    from no [OF this] * show False ..
  next
    fix v
    assume "v \<in> set (map_values (buildEntityMapping text items analyzerResults []))"
      and *: "entityType v = ''PERSON'' \<and> start v = ar_start r \<and> endp v = ar_end r"
    with b have "v \<in> ?S" by (rule_tac subsetD)
    from no [OF this] * show False ..
  qed
qed

theorem short_person_excluded_witness:
  "mk_span ''PERSON'' 3 5 (17 / 20)
     \<in> set (map_values (processedEntities [mk_span ''PERSON'' 3 5 (17 / 20), mk_span ''LOCATION'' 15 20 (17 / 20)]))
   \<and> substring ''Hi Al, I am in Paris'' 3 5 = ''Al''
   \<and> map original (map_values (buildEntityMapping ''Hi Al, I am in Paris''
         [mk_item ''PERSON'' ''[PERSON]'', mk_item ''LOCATION'' ''[LOCATION]'']
         [mk_span ''PERSON'' 3 5 (17 / 20), mk_span ''LOCATION'' 15 20 (17 / 20)] [])) = [''Paris'']
   \<and> \<not> (\<exists>v \<in> set (map_values (buildEntityMapping ''Hi Al, I am in Paris''
         [mk_item ''PERSON'' ''[PERSON]'', mk_item ''LOCATION'' ''[LOCATION]'']
         [mk_span ''PERSON'' 3 5 (17 / 20), mk_span ''LOCATION'' 15 20 (17 / 20)] [])).
          entityType v = ''PERSON'' \<and> start v = 3 \<and> endp v = 5)"
proof -
  let ?r = "mk_span ''PERSON'' 3 5 (17 / 20)"
  let ?rs = "[?r, mk_span ''LOCATION'' 15 20 (17 / 20)]"
  have a: "?r \<in> set (map_values (processedEntities ?rs))" by code_simp
  have b: "ar_entity_type ?r = ''PERSON''" by (simp add: mk_span_def)
  have c: "substring ''Hi Al, I am in Paris'' 3 5 = ''Al''" by code_simp
  then have d: "length (substring ''Hi Al, I am in Paris'' (ar_start ?r) (ar_end ?r)) < 3"
    by (simp add: mk_span_def)
  have e: "map original (map_values (buildEntityMapping ''Hi Al, I am in Paris''
         [mk_item ''PERSON'' ''[PERSON]'', mk_item ''LOCATION'' ''[LOCATION]''] ?rs [])) = [''Paris'']"
    by code_simp
  have s: "ar_start ?r = 3" "ar_end ?r = 5" by (simp_all add: mk_span_def)
  note th = short_person_excluded [OF a b d,
      of "[mk_item ''PERSON'' ''[PERSON]'', mk_item ''LOCATION'' ''[LOCATION]'']", unfolded s]
  from a c e conjunct2 [OF th] show ?thesis by (intro conjI)
qed

text \<open>
  C7, as stated, fails for the five types of the \<^verbatim>\<open>switch\<close>: an item of type
  \<^verbatim>\<open>PERSON\<close> that carries the literal \<^verbatim>\<open><PERSON>\<close> still gives the anonymized value
  \<^verbatim>\<open>[PERSON]\<close>, in the lookup and in the entry of the table.
\<close>

theorem literal_not_used_counterexample:
  "anonymizedValue_of (anonymizedEntities [mk_item ''PERSON'' ''<PERSON>'']) ''PERSON'' = ''[PERSON]''
   \<and> anonymizedValue_of (anonymizedEntities [mk_item ''PERSON'' ''<PERSON>'']) ''PERSON'' \<noteq> ''<PERSON>''
   \<and> map anonymized (map_values (buildEntityMapping ''John Doe'' [mk_item ''PERSON'' ''<PERSON>'']
          [mk_span ''PERSON'' 0 8 (9 / 10)] [])) = [''[PERSON]'']"
  by code_simp

text \<open>
  C7, amended: for a type among the anonymizer's items, the anonymized value is the fixed
  placeholder when the type is \<^verbatim>\<open>PERSON\<close>, \<^verbatim>\<open>PHONE_NUMBER\<close>, \<^verbatim>\<open>DATE_TIME\<close>,
  \<^verbatim>\<open>ORGANIZATION\<close> or \<^verbatim>\<open>LOCATION\<close>, whatever the items carry; for any other type it is
  the \<^verbatim>\<open>text\<close> of the last item of that type when that is a non-empty string, and the type's
  name in brackets otherwise. A type with no item gets its name in brackets. Every entry of
  the table carries the anonymized value of its type.
\<close>

theorem placeholder_resolution:
  "(ty \<in> set (map it_entity_type items) \<longrightarrow>
      anonymizedValue_of (anonymizedEntities items) ty =
        (if ty = ''PERSON'' then ''[PERSON]''
         else if ty = ''PHONE_NUMBER'' then ''[PHONE]''
         else if ty = ''DATE_TIME'' then ''[DATE_TIME]''
         else if ty = ''ORGANIZATION'' then ''[ORGANIZATION]''
         else if ty = ''LOCATION'' then ''[LOCATION]''
         else (case it_text (last (filter (\<lambda>i. it_entity_type i = ty) items)) of
                 Some t \<Rightarrow> if t \<noteq> [] then t else ''['' @ ty @ '']''
               | None \<Rightarrow> ''['' @ ty @ '']'')))
   \<and> (ty \<notin> set (map it_entity_type items) \<longrightarrow>
        anonymizedValue_of (anonymizedEntities items) ty = ''['' @ ty @ '']'')
   \<and> (\<forall>v \<in> set (map_values (buildEntityMapping originalText items rs [])).
        anonymized v = anonymizedValue_of (anonymizedEntities items) (entityType v))"
proof (intro conjI impI ballI)
  assume present: "ty \<in> set (map it_entity_type items)"
  show "anonymizedValue_of (anonymizedEntities items) ty =
        (if ty = ''PERSON'' then ''[PERSON]''
         else if ty = ''PHONE_NUMBER'' then ''[PHONE]''
         else if ty = ''DATE_TIME'' then ''[DATE_TIME]''
         else if ty = ''ORGANIZATION'' then ''[ORGANIZATION]''
         else if ty = ''LOCATION'' then ''[LOCATION]''
         else (case it_text (last (filter (\<lambda>i. it_entity_type i = ty) items)) of
                 Some t \<Rightarrow> if t \<noteq> [] then t else ''['' @ ty @ '']''
               | None \<Rightarrow> ''['' @ ty @ '']''))"
    unfolding anonymizedValue_of_present [OF present]
    by (simp add: item_placeholder_def Let_def last_filter_type [OF present] bracketed_def
        split: option.splits)
next
  assume "ty \<notin> set (map it_entity_type items)"
  then show "anonymizedValue_of (anonymizedEntities items) ty = ''['' @ ty @ '']''"
    by (simp add: anonymizedValue_of_absent bracketed_def)
next
  fix v
  assume "v \<in> set (map_values (buildEntityMapping originalText items rs []))"
  then show "anonymized v = anonymizedValue_of (anonymizedEntities items) (entityType v)"
    by (rule entries_anonymized)
qed

theorem placeholder_resolution_witness:
  "anonymizedValue_of (anonymizedEntities [mk_item ''PERSON'' ''<PERSON>'', mk_item ''URL'' ''[LINK]'',
       \<lparr>it_entity_type = ''US_SSN'', it_text = None\<rparr>, mk_item ''URL'' ''[URL]'']) ''PERSON'' = ''[PERSON]''
   \<and> anonymizedValue_of (anonymizedEntities [mk_item ''PERSON'' ''<PERSON>'', mk_item ''URL'' ''[LINK]'',
       \<lparr>it_entity_type = ''US_SSN'', it_text = None\<rparr>, mk_item ''URL'' ''[URL]'']) ''URL'' = ''[URL]''
   \<and> anonymizedValue_of (anonymizedEntities [mk_item ''PERSON'' ''<PERSON>'', mk_item ''URL'' ''[LINK]'',
       \<lparr>it_entity_type = ''US_SSN'', it_text = None\<rparr>, mk_item ''URL'' ''[URL]'']) ''US_SSN'' = ''[US_SSN]''
   \<and> anonymizedValue_of (anonymizedEntities [mk_item ''PERSON'' ''<PERSON>'', mk_item ''URL'' ''[LINK]'',
       \<lparr>it_entity_type = ''US_SSN'', it_text = None\<rparr>, mk_item ''URL'' ''[URL]'']) ''AGE'' = ''[AGE]''"
proof -
  let ?items = "[mk_item ''PERSON'' ''<PERSON>'', mk_item ''URL'' ''[LINK]'',
       \<lparr>it_entity_type = ''US_SSN'', it_text = None\<rparr>, mk_item ''URL'' ''[URL]'']"
  have tys: "map it_entity_type ?items = [''PERSON'', ''URL'', ''US_SSN'', ''URL'']"
    by (simp add: mk_item_def)
  have "anonymizedValue_of (anonymizedEntities ?items) ''PERSON'' = ''[PERSON]''"
    using placeholder_resolution [of "''PERSON''" ?items] by (simp add: mk_item_def)
  moreover have "anonymizedValue_of (anonymizedEntities ?items) ''URL'' = ''[URL]''"
    using placeholder_resolution [of "''URL''" ?items] by (simp add: mk_item_def)
  moreover have "anonymizedValue_of (anonymizedEntities ?items) ''US_SSN'' = ''[US_SSN]''"
    using placeholder_resolution [of "''US_SSN''" ?items] by (simp add: mk_item_def)
  moreover have "anonymizedValue_of (anonymizedEntities ?items) ''AGE'' = ''[AGE]''"
    using placeholder_resolution [of "''AGE''" ?items] by (simp add: mk_item_def)
  ultimately show ?thesis by (intro conjI)
qed

text \<open>
  C10: when both services answer and the analyzer found something, \<^verbatim>\<open>entitiesFound\<close> says
  whether the table built by \<^verbatim>\<open>buildEntityMapping\<close> is non-empty, and the text returned is
  the anonymizer's. So for the input \<^verbatim>\<open>"Hi Al"\<close>, whose only span is a \<^verbatim>\<open>PERSON\<close> of two
  code units, the call returns the changed text \<^verbatim>\<open>"Hi [PERSON]"\<close> with \<^verbatim>\<open>entitiesFound\<close>
  false.
\<close>

theorem entitiesFound_is_table_nonempty:
  assumes "analyzer (fst (service_urls cfg) @ ''/analyze'') text = Inr (Some rs)"
    and "rs \<noteq> []"
    and "anonymizer (snd (service_urls cfg) @ ''/anonymize'') text rs = Inr data"
  shows "anonymizeText cfg analyzer anonymizer m text =
           (Inr (resp_text data,
                 buildEntityMapping text (case resp_items data of Some items \<Rightarrow> items | None \<Rightarrow> []) rs [] \<noteq> []),
            buildEntityMapping text (case resp_items data of Some items \<Rightarrow> items | None \<Rightarrow> []) rs [])
         \<and> anonymizeText no_config (constant_analyzer [mk_span ''PERSON'' 3 5 (17 / 20)])
             (constant_anonymizer ''Hi [PERSON]'' [mk_item ''PERSON'' ''[PERSON]'']) [] ''Hi Al''
           = (Inr (''Hi [PERSON]'', False), [])
         \<and> ''Hi [PERSON]'' \<noteq> ''Hi Al''"
proof (intro conjI)
  show "anonymizeText cfg analyzer anonymizer m text =
           (Inr (resp_text data,
                 buildEntityMapping text (case resp_items data of Some items \<Rightarrow> items | None \<Rightarrow> []) rs [] \<noteq> []),
            buildEntityMapping text (case resp_items data of Some items \<Rightarrow> items | None \<Rightarrow> []) rs [])"
    using assms by (rule anonymizeText_success)
  show "anonymizeText no_config (constant_analyzer [mk_span ''PERSON'' 3 5 (17 / 20)])
             (constant_anonymizer ''Hi [PERSON]'' [mk_item ''PERSON'' ''[PERSON]'']) [] ''Hi Al''
           = (Inr (''Hi [PERSON]'', False), [])"
    by code_simp
  show "''Hi [PERSON]'' \<noteq> ''Hi Al''" by simp
qed

theorem entitiesFound_is_table_nonempty_witness:
  "anonymizeText no_config (constant_analyzer [mk_span ''PERSON'' 3 11 (17 / 20)])
       (constant_anonymizer ''Hi [PERSON]'' [mk_item ''PERSON'' ''[PERSON]'']) [] ''Hi John Doe''
     = (Inr (''Hi [PERSON]'', True),
        [(''PERSON-3-11'', \<lparr>original = ''John Doe'', anonymized = ''[PERSON]'',
            entityType = ''PERSON'', start = 3, endp = 11\<rparr>)])"
proof -
  let ?rs = "[mk_span ''PERSON'' 3 11 (17 / 20)]"
  let ?items = "[mk_item ''PERSON'' ''[PERSON]'']"
  have a: "constant_analyzer ?rs (fst (service_urls no_config) @ ''/analyze'') ''Hi John Doe''
             = Inr (Some ?rs)"
    by (simp add: constant_analyzer_def)
  have b: "?rs \<noteq> []" by simp
  have c: "constant_anonymizer ''Hi [PERSON]'' ?items (snd (service_urls no_config) @ ''/anonymize'')
             ''Hi John Doe'' ?rs = Inr \<lparr>resp_text = ''Hi [PERSON]'', resp_items = Some ?items\<rparr>"
    by (simp add: constant_anonymizer_def)
  have d: "buildEntityMapping ''Hi John Doe'' ?items ?rs []
             = [(''PERSON-3-11'', \<lparr>original = ''John Doe'', anonymized = ''[PERSON]'',
                  entityType = ''PERSON'', start = 3, endp = 11\<rparr>)]"
    by code_simp
  note th = entitiesFound_is_table_nonempty [of "constant_analyzer ?rs" no_config "''Hi John Doe''" ?rs
      "constant_anonymizer ''Hi [PERSON]'' ?items"
      "\<lparr>resp_text = ''Hi [PERSON]'', resp_items = Some ?items\<rparr>" "[]", OF a b c]
  from conjunct1 [OF th] d show ?thesis by simp
qed

text \<open>
  C4, as stated, fails: the code asks whether the original value contains a plus sign
  anywhere, not whether it begins with one. Of the two numbers \<^verbatim>\<open>"+1 555-1234"\<close> and
  \<^verbatim>\<open>"(+1) 555-123-4567"\<close> only the first has a leading plus sign, yet both contain one, and
  the longer second one is selected.
\<close>

theorem leading_plus_counterexample:
  "map_get (buildEntityMapping bracket_phones_text [mk_item ''PHONE_NUMBER'' ''[PHONE]'']
       [mk_span ''PHONE_NUMBER'' 5 16 (3 / 4), mk_span ''PHONE_NUMBER'' 20 37 (3 / 4)] [])
     ''PHONE_NUMBER-best''
     = Some (mk_entity ''(+1) 555-123-4567'' ''[PHONE]'' ''PHONE_NUMBER'' 20 37)
   \<and> substring bracket_phones_text 5 16 = ''+1 555-1234''
   \<and> startsWith ''+1 555-1234'' ''+''
   \<and> \<not> startsWith ''(+1) 555-123-4567'' ''+''"
  by code_simp

text \<open>
  C4, amended: when the table holds two or more \<^verbatim>\<open>PHONE_NUMBER\<close> entries,
  \<^verbatim>\<open>findBestMatch\<close> stores one of them, \<open>w\<close>, under the key \<^verbatim>\<open>PHONE_NUMBER-best\<close>. No entry
  is preferred to \<open>w\<close>, where an entry whose original value contains a plus sign anywhere is
  preferred to one without, and among entries alike in that the longer original value is
  preferred; \<open>w\<close> is the first such entry of the table, every entry before it being strictly
  less preferred. In particular, of \<^verbatim>\<open>"555-1234"\<close> and \<^verbatim>\<open>"+1 555-123-4567"\<close> the second is
  selected, in whichever order the entries stand in the table or the spans arrive.
\<close>

theorem phone_best_match:
  assumes "1 < length (filter (\<lambda>e. entityType e = ''PHONE_NUMBER'') (map_values m))"
  shows "(\<exists>pre w post.
            filter (\<lambda>e. entityType e = ''PHONE_NUMBER'') (map_values m) = pre @ w # post
            \<and> map_get (findBestMatch ''PHONE_NUMBER'' m) ''PHONE_NUMBER-best'' = Some w
            \<and> (\<forall>e \<in> set (pre @ w # post).
                  (js_includes (original e) ''+'' \<longrightarrow> js_includes (original w) ''+'')
                  \<and> (js_includes (original e) ''+'' = js_includes (original w) ''+''
                       \<longrightarrow> length (original e) \<le> length (original w)))
            \<and> (\<forall>e \<in> set pre.
                  (js_includes (original w) ''+'' \<and> \<not> js_includes (original e) ''+'')
                  \<or> (js_includes (original w) ''+'' = js_includes (original e) ''+''
                       \<and> length (original e) < length (original w))))
       \<and> findBestMatch ''PHONE_NUMBER'' phones_short_first
           = [(''PHONE_NUMBER-best'', mk_entity ''+1 555-123-4567'' ''[PHONE]'' ''PHONE_NUMBER'' 17 32)]
       \<and> findBestMatch ''PHONE_NUMBER'' phones_long_first
           = [(''PHONE_NUMBER-best'', mk_entity ''+1 555-123-4567'' ''[PHONE]'' ''PHONE_NUMBER'' 17 32)]
       \<and> buildEntityMapping two_phones_text [mk_item ''PHONE_NUMBER'' ''[PHONE]'']
             [mk_span ''PHONE_NUMBER'' 5 13 (3 / 4), mk_span ''PHONE_NUMBER'' 17 32 (3 / 4)] []
           = [(''PHONE_NUMBER-best'', mk_entity ''+1 555-123-4567'' ''[PHONE]'' ''PHONE_NUMBER'' 17 32)]
       \<and> buildEntityMapping two_phones_text [mk_item ''PHONE_NUMBER'' ''[PHONE]'']
             [mk_span ''PHONE_NUMBER'' 17 32 (3 / 4), mk_span ''PHONE_NUMBER'' 5 13 (3 / 4)] []
           = [(''PHONE_NUMBER-best'', mk_entity ''+1 555-123-4567'' ''[PHONE]'' ''PHONE_NUMBER'' 17 32)]"
proof (intro conjI)
  have ty: "''PHONE_NUMBER'' = ''PERSON'' \<and> ''+'' = '' ''
      \<or> ''PHONE_NUMBER'' = ''PHONE_NUMBER'' \<and> ''+'' = ''+''"
    by simp
  from findBestMatch_winner [OF ty assms]
  obtain pre w post where
    dec: "filter (\<lambda>e. entityType e = ''PHONE_NUMBER'') (map_values m) = pre @ w # post"
    and get': "map_get (findBestMatch ''PHONE_NUMBER'' m) (''PHONE_NUMBER'' @ ''-best'') = Some w"
    and pre: "\<forall>e \<in> set pre. better ''+'' w e"
    and all: "\<forall>e \<in> set (pre @ w # post). at_least_as_good ''+'' w e"
    by blast
  from get' have get: "map_get (findBestMatch ''PHONE_NUMBER'' m) ''PHONE_NUMBER-best'' = Some w"
    by simp
  from all have "\<forall>e \<in> set (pre @ w # post).
                  (js_includes (original e) ''+'' \<longrightarrow> js_includes (original w) ''+'')
                  \<and> (js_includes (original e) ''+'' = js_includes (original w) ''+''
                       \<longrightarrow> length (original e) \<le> length (original w))"
    unfolding at_least_as_good_def by blast
  moreover from pre have "\<forall>e \<in> set pre.
                  (js_includes (original w) ''+'' \<and> \<not> js_includes (original e) ''+'')
                  \<or> (js_includes (original w) ''+'' = js_includes (original e) ''+''
                       \<and> length (original e) < length (original w))"
    unfolding better_def by blast
  ultimately show "\<exists>pre w post.
            filter (\<lambda>e. entityType e = ''PHONE_NUMBER'') (map_values m) = pre @ w # post
            \<and> map_get (findBestMatch ''PHONE_NUMBER'' m) ''PHONE_NUMBER-best'' = Some w
            \<and> (\<forall>e \<in> set (pre @ w # post).
                  (js_includes (original e) ''+'' \<longrightarrow> js_includes (original w) ''+'')
                  \<and> (js_includes (original e) ''+'' = js_includes (original w) ''+''
                       \<longrightarrow> length (original e) \<le> length (original w)))
            \<and> (\<forall>e \<in> set pre.
                  (js_includes (original w) ''+'' \<and> \<not> js_includes (original e) ''+'')
                  \<or> (js_includes (original w) ''+'' = js_includes (original e) ''+''
                       \<and> length (original e) < length (original w)))"
    using dec get by blast
  show "findBestMatch ''PHONE_NUMBER'' phones_short_first
           = [(''PHONE_NUMBER-best'', mk_entity ''+1 555-123-4567'' ''[PHONE]'' ''PHONE_NUMBER'' 17 32)]"
    by code_simp
  show "findBestMatch ''PHONE_NUMBER'' phones_long_first
           = [(''PHONE_NUMBER-best'', mk_entity ''+1 555-123-4567'' ''[PHONE]'' ''PHONE_NUMBER'' 17 32)]"
    by code_simp
  show "buildEntityMapping two_phones_text [mk_item ''PHONE_NUMBER'' ''[PHONE]'']
             [mk_span ''PHONE_NUMBER'' 5 13 (3 / 4), mk_span ''PHONE_NUMBER'' 17 32 (3 / 4)] []
           = [(''PHONE_NUMBER-best'', mk_entity ''+1 555-123-4567'' ''[PHONE]'' ''PHONE_NUMBER'' 17 32)]"
    by code_simp
  show "buildEntityMapping two_phones_text [mk_item ''PHONE_NUMBER'' ''[PHONE]'']
             [mk_span ''PHONE_NUMBER'' 17 32 (3 / 4), mk_span ''PHONE_NUMBER'' 5 13 (3 / 4)] []
           = [(''PHONE_NUMBER-best'', mk_entity ''+1 555-123-4567'' ''[PHONE]'' ''PHONE_NUMBER'' 17 32)]"
    by code_simp
qed

theorem phone_best_match_witness:
  "length (filter (\<lambda>e. entityType e = ''PHONE_NUMBER'') (map_values phones_short_first)) = 2
   \<and> (\<exists>pre w post.
         filter (\<lambda>e. entityType e = ''PHONE_NUMBER'') (map_values phones_short_first) = pre @ w # post
         \<and> map_get (findBestMatch ''PHONE_NUMBER'' phones_short_first) ''PHONE_NUMBER-best'' = Some w
         \<and> (\<forall>e \<in> set (pre @ w # post).
               (js_includes (original e) ''+'' \<longrightarrow> js_includes (original w) ''+'')
               \<and> (js_includes (original e) ''+'' = js_includes (original w) ''+''
                    \<longrightarrow> length (original e) \<le> length (original w)))
         \<and> (\<forall>e \<in> set pre.
               (js_includes (original w) ''+'' \<and> \<not> js_includes (original e) ''+'')
               \<or> (js_includes (original w) ''+'' = js_includes (original e) ''+''
                    \<and> length (original e) < length (original w))))"
proof -
  have n: "length (filter (\<lambda>e. entityType e = ''PHONE_NUMBER'') (map_values phones_short_first)) = 2"
    by code_simp
  then have "1 < length (filter (\<lambda>e. entityType e = ''PHONE_NUMBER'') (map_values phones_short_first))"
    by simp
  from conjunct1 [OF phone_best_match [OF this]] n show ?thesis by (intro conjI)
qed

text \<open>
  C5: when the table holds two or more \<^verbatim>\<open>PERSON\<close> entries, \<^verbatim>\<open>findBestMatch\<close> stores one
  of them, \<open>w\<close>, under the key \<^verbatim>\<open>PERSON-best\<close>. No entry is preferred to \<open>w\<close>, where an
  entry whose original value contains a space is preferred to one without, and among entries
  alike in that the longer original value is preferred; \<open>w\<close> is the first such entry of the
  table, every entry before it being strictly less preferred. In particular, of \<^verbatim>\<open>"Doe"\<close>
  and \<^verbatim>\<open>"John Doe"\<close> the second is selected, in whichever order the entries stand in the
  table or the spans arrive.
\<close>

theorem person_best_match:
  assumes "1 < length (filter (\<lambda>e. entityType e = ''PERSON'') (map_values m))"
  shows "(\<exists>pre w post.
            filter (\<lambda>e. entityType e = ''PERSON'') (map_values m) = pre @ w # post
            \<and> map_get (findBestMatch ''PERSON'' m) ''PERSON-best'' = Some w
            \<and> (\<forall>e \<in> set (pre @ w # post).
                  (js_includes (original e) '' '' \<longrightarrow> js_includes (original w) '' '')
                  \<and> (js_includes (original e) '' '' = js_includes (original w) '' ''
                       \<longrightarrow> length (original e) \<le> length (original w)))
            \<and> (\<forall>e \<in> set pre.
                  (js_includes (original w) '' '' \<and> \<not> js_includes (original e) '' '')
                  \<or> (js_includes (original w) '' '' = js_includes (original e) '' ''
                       \<and> length (original e) < length (original w))))
       \<and> findBestMatch ''PERSON'' persons_short_first
           = [(''PERSON-best'', mk_entity ''John Doe'' ''[PERSON]'' ''PERSON'' 0 8)]
       \<and> findBestMatch ''PERSON'' persons_long_first
           = [(''PERSON-best'', mk_entity ''John Doe'' ''[PERSON]'' ''PERSON'' 0 8)]
       \<and> buildEntityMapping ''John Doe'' [mk_item ''PERSON'' ''[PERSON]'']
             [mk_span ''PERSON'' 5 8 (17 / 20), mk_span ''PERSON'' 0 8 (17 / 20)] []
           = [(''PERSON-best'', mk_entity ''John Doe'' ''[PERSON]'' ''PERSON'' 0 8)]
       \<and> buildEntityMapping ''John Doe'' [mk_item ''PERSON'' ''[PERSON]'']
             [mk_span ''PERSON'' 0 8 (17 / 20), mk_span ''PERSON'' 5 8 (17 / 20)] []
           = [(''PERSON-best'', mk_entity ''John Doe'' ''[PERSON]'' ''PERSON'' 0 8)]"
proof (intro conjI)
  have ty: "''PERSON'' = ''PERSON'' \<and> '' '' = '' ''
      \<or> ''PERSON'' = ''PHONE_NUMBER'' \<and> '' '' = ''+''"
    by simp
  from findBestMatch_winner [OF ty assms]
  obtain pre w post where
    dec: "filter (\<lambda>e. entityType e = ''PERSON'') (map_values m) = pre @ w # post"
    and get': "map_get (findBestMatch ''PERSON'' m) (''PERSON'' @ ''-best'') = Some w"
    and pre: "\<forall>e \<in> set pre. better '' '' w e"
    and all: "\<forall>e \<in> set (pre @ w # post). at_least_as_good '' '' w e"
    by blast
  from get' have get: "map_get (findBestMatch ''PERSON'' m) ''PERSON-best'' = Some w"
    by simp
  from all have "\<forall>e \<in> set (pre @ w # post).
                  (js_includes (original e) '' '' \<longrightarrow> js_includes (original w) '' '')
                  \<and> (js_includes (original e) '' '' = js_includes (original w) '' ''
                       \<longrightarrow> length (original e) \<le> length (original w))"
    unfolding at_least_as_good_def by blast
  moreover from pre have "\<forall>e \<in> set pre.
                  (js_includes (original w) '' '' \<and> \<not> js_includes (original e) '' '')
                  \<or> (js_includes (original w) '' '' = js_includes (original e) '' ''
                       \<and> length (original e) < length (original w))"
    unfolding better_def by blast
  ultimately show "\<exists>pre w post.
            filter (\<lambda>e. entityType e = ''PERSON'') (map_values m) = pre @ w # post
            \<and> map_get (findBestMatch ''PERSON'' m) ''PERSON-best'' = Some w
            \<and> (\<forall>e \<in> set (pre @ w # post).
                  (js_includes (original e) '' '' \<longrightarrow> js_includes (original w) '' '')
                  \<and> (js_includes (original e) '' '' = js_includes (original w) '' ''
                       \<longrightarrow> length (original e) \<le> length (original w)))
            \<and> (\<forall>e \<in> set pre.
                  (js_includes (original w) '' '' \<and> \<not> js_includes (original e) '' '')
                  \<or> (js_includes (original w) '' '' = js_includes (original e) '' ''
                       \<and> length (original e) < length (original w)))"
    using dec get by blast
  show "findBestMatch ''PERSON'' persons_short_first
           = [(''PERSON-best'', mk_entity ''John Doe'' ''[PERSON]'' ''PERSON'' 0 8)]"
    by code_simp
  show "findBestMatch ''PERSON'' persons_long_first
           = [(''PERSON-best'', mk_entity ''John Doe'' ''[PERSON]'' ''PERSON'' 0 8)]"
    by code_simp
  show "buildEntityMapping ''John Doe'' [mk_item ''PERSON'' ''[PERSON]'']
             [mk_span ''PERSON'' 5 8 (17 / 20), mk_span ''PERSON'' 0 8 (17 / 20)] []
           = [(''PERSON-best'', mk_entity ''John Doe'' ''[PERSON]'' ''PERSON'' 0 8)]"
    by code_simp
  show "buildEntityMapping ''John Doe'' [mk_item ''PERSON'' ''[PERSON]'']
             [mk_span ''PERSON'' 0 8 (17 / 20), mk_span ''PERSON'' 5 8 (17 / 20)] []
           = [(''PERSON-best'', mk_entity ''John Doe'' ''[PERSON]'' ''PERSON'' 0 8)]"
    by code_simp
qed

theorem person_best_match_witness:
  "length (filter (\<lambda>e. entityType e = ''PERSON'') (map_values persons_short_first)) = 2
   \<and> (\<exists>pre w post.
         filter (\<lambda>e. entityType e = ''PERSON'') (map_values persons_short_first) = pre @ w # post
         \<and> map_get (findBestMatch ''PERSON'' persons_short_first) ''PERSON-best'' = Some w
         \<and> (\<forall>e \<in> set (pre @ w # post).
               (js_includes (original e) '' '' \<longrightarrow> js_includes (original w) '' '')
               \<and> (js_includes (original e) '' '' = js_includes (original w) '' ''
                    \<longrightarrow> length (original e) \<le> length (original w)))
         \<and> (\<forall>e \<in> set pre.
               (js_includes (original w) '' '' \<and> \<not> js_includes (original e) '' '')
               \<or> (js_includes (original w) '' '' = js_includes (original e) '' ''
                    \<and> length (original e) < length (original w))))"
proof -
  have n: "length (filter (\<lambda>e. entityType e = ''PERSON'') (map_values persons_short_first)) = 2"
    by code_simp
  then have "1 < length (filter (\<lambda>e. entityType e = ''PERSON'') (map_values persons_short_first))"
    by simp
  from conjunct1 [OF person_best_match [OF this]] n show ?thesis by (intro conjI)
qed

text \<open>
  C9: the table that \<^verbatim>\<open>buildEntityMapping\<close> leaves, starting from the cleared table, has no
  key twice and at most one entry of type \<^verbatim>\<open>PERSON\<close> and at most one of type
  \<^verbatim>\<open>PHONE_NUMBER\<close>. When the entry loop produced more than one entry of such a type, the
  final table holds exactly one entry of the type, one of those produced, under the key
  made of the type and \<^verbatim>\<open>-best\<close>, and no other key that starts with the type and a dash.
\<close>

theorem table_invariant:
  "distinct (map_keys (buildEntityMapping text items rs []))
   \<and> (\<forall>ty \<in> {''PERSON'', ''PHONE_NUMBER''}.
        length (filter (\<lambda>e. entityType e = ty) (map_values (buildEntityMapping text items rs []))) \<le> 1)
   \<and> (items \<noteq> [] \<longrightarrow>
       (\<forall>ty \<in> {''PERSON'', ''PHONE_NUMBER''}.
          1 < length (filter (\<lambda>e. entityType e = ty) (map_values (add_entities text items rs []))) \<longrightarrow>
          (\<exists>w \<in> set (map_values (add_entities text items rs [])).
              entityType w = ty
            \<and> map_get (buildEntityMapping text items rs []) (ty @ ''-best'') = Some w
            \<and> filter (\<lambda>e. entityType e = ty) (map_values (buildEntityMapping text items rs [])) = [w]
            \<and> (\<forall>k \<in> set (map_keys (buildEntityMapping text items rs [])).
                  startsWith k (ty @ ''-'') \<longrightarrow> k = ty @ ''-best''))))"
proof (cases "items = []")
  case True
  then show ?thesis by (simp add: buildEntityMapping_def map_keys_def)
next
  case False
  define m0 where "m0 = add_entities text items rs []"
  define m1 where "m1 = findBestMatch ''PHONE_NUMBER'' m0"
  define m2 where "m2 = findBestMatch ''PERSON'' m1"
  have final: "buildEntityMapping text items rs [] = m2"
    using False by (simp add: buildEntityMapping_def m0_def m1_def m2_def)
  have i0: "keyed m0" "distinct (map_keys m0)"
    using add_entities_invariant [of "text" items rs] by (simp_all add: m0_def)
  have i1: "keyed m1" "distinct (map_keys m1)"
    "length (filter (\<lambda>e. entityType e = ''PHONE_NUMBER'') (map_values m1)) \<le> 1"
    using findBestMatch_invariant [OF i0, of "''PHONE_NUMBER''"] by (simp_all add: m1_def)
  have i2: "keyed m2" "distinct (map_keys m2)"
    "length (filter (\<lambda>e. entityType e = ''PERSON'') (map_values m2)) \<le> 1"
    using findBestMatch_invariant [OF i1(1,2), of "''PERSON''"] by (simp_all add: m2_def)
  have phones: "filter (\<lambda>e. entityType e = ''PHONE_NUMBER'') (map_values m2)
                  = filter (\<lambda>e. entityType e = ''PHONE_NUMBER'') (map_values m1)"
    unfolding values_filter_type m2_def
    using findBestMatch_other [OF i1(1), of "''PERSON''" "''PHONE_NUMBER''"] by simp
  have persons: "filter (\<lambda>e. entityType e = ''PERSON'') (map_values m1)
                  = filter (\<lambda>e. entityType e = ''PERSON'') (map_values m0)"
    unfolding values_filter_type m1_def
    using findBestMatch_other [OF i0(1), of "''PHONE_NUMBER''" "''PERSON''"] by simp
  have phone: "\<exists>w \<in> set (map_values m0). reduced_to ''PHONE_NUMBER'' w m2"
    if many: "1 < length (filter (\<lambda>e. entityType e = ''PHONE_NUMBER'') (map_values m0))"
  proof -
    from reduced_step [OF i0 _ many] obtain w where
      w: "w \<in> set (map_values m0)" "reduced_to ''PHONE_NUMBER'' w m1"
      unfolding m1_def by blast
    from reduced_preserved [OF w(2) i1(1,2), of "''PERSON''"]
    have "reduced_to ''PHONE_NUMBER'' w m2" by (simp add: m2_def)
    with w(1) show ?thesis by blast
  qed
  have person: "\<exists>w \<in> set (map_values m0). reduced_to ''PERSON'' w m2"
    if many: "1 < length (filter (\<lambda>e. entityType e = ''PERSON'') (map_values m0))"
  proof -
    from many persons
    have "1 < length (filter (\<lambda>e. entityType e = ''PERSON'') (map_values m1))" by simp
    from reduced_step [OF i1(1,2) _ this] obtain w where
      w: "w \<in> set (map_values m1)" "reduced_to ''PERSON'' w m2"
      unfolding m2_def by blast
    from w(2) have "entityType w = ''PERSON''" by (simp add: reduced_to_def)
    with w(1) have "w \<in> set (filter (\<lambda>e. entityType e = ''PERSON'') (map_values m1))" by simp
    then have "w \<in> set (map_values m0)" unfolding persons by simp
    with w(2) show ?thesis by blast
  qed
  show ?thesis
    unfolding final m0_def [symmetric]
    using i2(2,3) i1(3) phones phone person by (auto simp: reduced_to_def)
qed

theorem table_invariant_witness:
  "mixed_items \<noteq> []
   \<and> map_keys (add_entities mixed_text mixed_items mixed_spans [])
       = [''PERSON-0-8'', ''PERSON-5-8'', ''PHONE_NUMBER-22-37'', ''PHONE_NUMBER-10-18'']
   \<and> buildEntityMapping mixed_text mixed_items mixed_spans []
       = [(''PHONE_NUMBER-best'', mk_entity ''+1 555-123-4567'' ''[PHONE]'' ''PHONE_NUMBER'' 22 37),
          (''PERSON-best'', mk_entity ''John Doe'' ''[PERSON]'' ''PERSON'' 0 8)]
   \<and> distinct (map_keys (buildEntityMapping mixed_text mixed_items mixed_spans []))
   \<and> (\<exists>w \<in> set (map_values (add_entities mixed_text mixed_items mixed_spans [])).
          entityType w = ''PERSON''
        \<and> map_get (buildEntityMapping mixed_text mixed_items mixed_spans []) ''PERSON-best'' = Some w
        \<and> filter (\<lambda>e. entityType e = ''PERSON'')
            (map_values (buildEntityMapping mixed_text mixed_items mixed_spans [])) = [w])"
proof -
  have a: "mixed_items \<noteq> []" by (simp add: mixed_items_def)
  have b: "map_keys (add_entities mixed_text mixed_items mixed_spans [])
       = [''PERSON-0-8'', ''PERSON-5-8'', ''PHONE_NUMBER-22-37'', ''PHONE_NUMBER-10-18'']"
    by code_simp
  have c: "buildEntityMapping mixed_text mixed_items mixed_spans []
       = [(''PHONE_NUMBER-best'', mk_entity ''+1 555-123-4567'' ''[PHONE]'' ''PHONE_NUMBER'' 22 37),
          (''PERSON-best'', mk_entity ''John Doe'' ''[PERSON]'' ''PERSON'' 0 8)]"
    by code_simp
  have d: "1 < length (filter (\<lambda>e. entityType e = ''PERSON'')
             (map_values (add_entities mixed_text mixed_items mixed_spans [])))"
    by code_simp
  note th = table_invariant [of mixed_text mixed_items mixed_spans]
  from th have e: "distinct (map_keys (buildEntityMapping mixed_text mixed_items mixed_spans []))"
    by (rule conjunct1)
  from th a have "\<forall>ty \<in> {''PERSON'', ''PHONE_NUMBER''}.
          1 < length (filter (\<lambda>e. entityType e = ty)
                (map_values (add_entities mixed_text mixed_items mixed_spans []))) \<longrightarrow>
          (\<exists>w \<in> set (map_values (add_entities mixed_text mixed_items mixed_spans [])).
              entityType w = ty
            \<and> map_get (buildEntityMapping mixed_text mixed_items mixed_spans []) (ty @ ''-best'') = Some w
            \<and> filter (\<lambda>e. entityType e = ty)
                (map_values (buildEntityMapping mixed_text mixed_items mixed_spans [])) = [w]
            \<and> (\<forall>k \<in> set (map_keys (buildEntityMapping mixed_text mixed_items mixed_spans [])).
                  startsWith k (ty @ ''-'') \<longrightarrow> k = ty @ ''-best''))"
    by blast
  then have "1 < length (filter (\<lambda>e. entityType e = ''PERSON'')
                (map_values (add_entities mixed_text mixed_items mixed_spans []))) \<longrightarrow>
          (\<exists>w \<in> set (map_values (add_entities mixed_text mixed_items mixed_spans [])).
              entityType w = ''PERSON''
            \<and> map_get (buildEntityMapping mixed_text mixed_items mixed_spans []) (''PERSON'' @ ''-best'') = Some w
            \<and> filter (\<lambda>e. entityType e = ''PERSON'')
                (map_values (buildEntityMapping mixed_text mixed_items mixed_spans [])) = [w]
            \<and> (\<forall>k \<in> set (map_keys (buildEntityMapping mixed_text mixed_items mixed_spans [])).
                  startsWith k (''PERSON'' @ ''-'') \<longrightarrow> k = ''PERSON'' @ ''-best''))"
    by (rule bspec) simp
  with d have "\<exists>w \<in> set (map_values (add_entities mixed_text mixed_items mixed_spans [])).
              entityType w = ''PERSON''
            \<and> map_get (buildEntityMapping mixed_text mixed_items mixed_spans []) (''PERSON'' @ ''-best'') = Some w
            \<and> filter (\<lambda>e. entityType e = ''PERSON'')
                (map_values (buildEntityMapping mixed_text mixed_items mixed_spans [])) = [w]"
    by blast
  then have f: "\<exists>w \<in> set (map_values (add_entities mixed_text mixed_items mixed_spans [])).
          entityType w = ''PERSON''
        \<and> map_get (buildEntityMapping mixed_text mixed_items mixed_spans []) ''PERSON-best'' = Some w
        \<and> filter (\<lambda>e. entityType e = ''PERSON'')
            (map_values (buildEntityMapping mixed_text mixed_items mixed_spans [])) = [w]"
    by simp
  from a b c e f show ?thesis by (intro conjI)
qed

text \<open>
  C1, as stated, fails. When two spans with different values get the same placeholder, the
  table has two entries for one placeholder and every occurrence is restored to the value
  of the first: \<^verbatim>\<open>"From Paris to Rome"\<close>, with both places detected as \<^verbatim>\<open>LOCATION\<close>, comes
  back as \<^verbatim>\<open>"From Paris to Paris"\<close>. When a \<^verbatim>\<open>PERSON\<close> has fewer than three code units, no
  entry is made for it although the anonymizer replaced it: \<^verbatim>\<open>"Hi Al"\<close> comes back as
  \<^verbatim>\<open>"Hi [PERSON]"\<close>. When a value contains a dollar sign followed by a dollar sign, an
  ampersand, a backquote or an apostrophe, \<^verbatim>\<open>replace\<close> expands the two characters: the
  address \<^verbatim>\<open>http://a.io/?x=$$y\<close> comes back with one dollar sign, and the three others with
  the placeholder, with the text before it and with the text after it in the place of the
  two characters. In all these texts no placeholder occurs, the spans are within bounds and
  the anonymizer substitutes literals at the spans.
\<close>

theorem round_trip_counterexample:
  "text_of two_places_segments = ''From Paris to Rome''
   \<and> \<not> js_includes ''From Paris to Rome'' ''[LOCATION]''
   \<and> fst (anonymizeText no_config (constant_analyzer (spans_from 0 two_places_segments))
            (substituting_anonymizer two_places_segments) [] ''From Paris to Rome'')
       = Inr (''From [LOCATION] to [LOCATION]'', True)
   \<and> deanonymizeText
        (snd (anonymizeText no_config (constant_analyzer (spans_from 0 two_places_segments))
                (substituting_anonymizer two_places_segments) [] ''From Paris to Rome''))
        ''From [LOCATION] to [LOCATION]''
       = Some ''From Paris to Paris''
   \<and> text_of short_name_segments = ''Hi Al''
   \<and> \<not> js_includes ''Hi Al'' ''[PERSON]''
   \<and> fst (anonymizeText no_config (constant_analyzer (spans_from 0 short_name_segments))
            (substituting_anonymizer short_name_segments) [] ''Hi Al'')
       = Inr (''Hi [PERSON]'', False)
   \<and> deanonymizeText
        (snd (anonymizeText no_config (constant_analyzer (spans_from 0 short_name_segments))
                (substituting_anonymizer short_name_segments) [] ''Hi Al''))
        ''Hi [PERSON]''
       = Some ''Hi [PERSON]''
   \<and> text_of (pattern_segments CHR ''$'') = ''Pay http://a.io/?x=$$y now''
   \<and> \<not> js_includes ''Pay http://a.io/?x=$$y now'' ''[URL]''
   \<and> fst (anonymizeText no_config (constant_analyzer (spans_from 0 (pattern_segments CHR ''$'')))
            (substituting_anonymizer (pattern_segments CHR ''$'')) [] ''Pay http://a.io/?x=$$y now'')
       = Inr (''Pay [URL] now'', True)
   \<and> deanonymizeText
        (snd (anonymizeText no_config (constant_analyzer (spans_from 0 (pattern_segments CHR ''$'')))
                (substituting_anonymizer (pattern_segments CHR ''$'')) [] ''Pay http://a.io/?x=$$y now''))
        ''Pay [URL] now''
       = Some ''Pay http://a.io/?x=$y now''
   \<and> text_of (pattern_segments CHR ''&'') = ''Pay http://a.io/?x=$&y now''
   \<and> \<not> js_includes ''Pay http://a.io/?x=$&y now'' ''[URL]''
   \<and> fst (anonymizeText no_config (constant_analyzer (spans_from 0 (pattern_segments CHR ''&'')))
            (substituting_anonymizer (pattern_segments CHR ''&'')) [] ''Pay http://a.io/?x=$&y now'')
       = Inr (''Pay [URL] now'', True)
   \<and> deanonymizeText
        (snd (anonymizeText no_config (constant_analyzer (spans_from 0 (pattern_segments CHR ''&'')))
                (substituting_anonymizer (pattern_segments CHR ''&'')) [] ''Pay http://a.io/?x=$&y now''))
        ''Pay [URL] now''
       = Some ''Pay http://a.io/?x=[URL]y now''
   \<and> text_of (pattern_segments (CHR 0x60)) = ''Pay http://a.io/?x=$'' @ CHR 0x60 # ''y now''
   \<and> \<not> js_includes (''Pay http://a.io/?x=$'' @ CHR 0x60 # ''y now'') ''[URL]''
   \<and> fst (anonymizeText no_config (constant_analyzer (spans_from 0 (pattern_segments (CHR 0x60))))
            (substituting_anonymizer (pattern_segments (CHR 0x60))) []
            (''Pay http://a.io/?x=$'' @ CHR 0x60 # ''y now''))
       = Inr (''Pay [URL] now'', True)
   \<and> deanonymizeText
        (snd (anonymizeText no_config (constant_analyzer (spans_from 0 (pattern_segments (CHR 0x60))))
                (substituting_anonymizer (pattern_segments (CHR 0x60))) []
                (''Pay http://a.io/?x=$'' @ CHR 0x60 # ''y now'')))
        ''Pay [URL] now''
       = Some ''Pay http://a.io/?x=Pay y now''
   \<and> text_of (pattern_segments (CHR 0x27)) = ''Pay http://a.io/?x=$'' @ CHR 0x27 # ''y now''
   \<and> \<not> js_includes (''Pay http://a.io/?x=$'' @ CHR 0x27 # ''y now'') ''[URL]''
   \<and> fst (anonymizeText no_config (constant_analyzer (spans_from 0 (pattern_segments (CHR 0x27))))
            (substituting_anonymizer (pattern_segments (CHR 0x27))) []
            (''Pay http://a.io/?x=$'' @ CHR 0x27 # ''y now''))
       = Inr (''Pay [URL] now'', True)
   \<and> deanonymizeText
        (snd (anonymizeText no_config (constant_analyzer (spans_from 0 (pattern_segments (CHR 0x27))))
                (substituting_anonymizer (pattern_segments (CHR 0x27))) []
                (''Pay http://a.io/?x=$'' @ CHR 0x27 # ''y now'')))
        ''Pay [URL] now''
       = Some ''Pay http://a.io/?x= nowy now''"
  by code_simp

text \<open>
  C1, amended. Let the text be a sequence of segments, some of them detected spans (so the
  spans are within bounds and do not overlap), and let the detector report exactly these
  spans, in any order and any number of times. If there is a span, let the anonymizer
  answer with the text in which each span is replaced by the literal of its type, and with
  items, at least one, from which \<^verbatim>\<open>buildEntityMapping\<close> takes that literal as the placeholder
  of every detected type. If every detected type has a literal replacement in
  \<^verbatim>\<open>buildAnonymizersConfig\<close>, no placeholder of a detected type occurs in the text, spans
  with the same placeholder have the same value, no detected \<^verbatim>\<open>PERSON\<close> has fewer than three
  code units and no detected value includes one of the four patterns of \<^verbatim>\<open>replace\<close>, then
  \<^verbatim>\<open>anonymizeText\<close> returns the anonymizer's text, with \<^verbatim>\<open>entitiesFound\<close> saying whether
  there is a span, and \<^verbatim>\<open>deanonymizeText\<close> of that text returns the input.
\<close>

theorem round_trip:
  assumes literal: "\<forall>ts \<in> set (detected segs). literal_type (fst ts)"
    and free: "\<forall>ts \<in> set (detected segs). \<not> js_includes (text_of segs) (new_value (fst ts))"
    and same: "\<forall>ts \<in> set (detected segs). \<forall>ts' \<in> set (detected segs).
                 new_value (fst ts) = new_value (fst ts') \<longrightarrow> snd ts = snd ts'"
    and names: "\<forall>ts \<in> set (detected segs). fst ts = ''PERSON'' \<longrightarrow> 3 \<le> length (snd ts)"
    and verbatim: "\<forall>ts \<in> set (detected segs). \<not> dollar_pattern (snd ts)"
    and detector: "analyzer (fst (service_urls cfg) @ ''/analyze'') (text_of segs) = Inr (Some rs)"
    and order: "set rs = set (spans_from 0 segs)"
    and substituted: "detected segs \<noteq> [] \<longrightarrow>
                        items \<noteq> []
                        \<and> anonymizer (snd (service_urls cfg) @ ''/anonymize'') (text_of segs) rs
                            = Inr \<lparr>resp_text = anonymized_text segs, resp_items = Some items\<rparr>"
    and resolved: "\<forall>ts \<in> set (detected segs).
                     anonymizedValue_of (anonymizedEntities items) (fst ts) = new_value (fst ts)"
  shows "\<exists>m'. anonymizeText cfg analyzer anonymizer m (text_of segs)
                 = (Inr (anonymized_text segs, detected segs \<noteq> []), m')
               \<and> deanonymizeText m' (anonymized_text segs) = Some (text_of segs)"
proof (cases "detected segs = []")
  case True
  then have "map ar_entity_type (spans_from 0 segs) = []" by (simp add: spans_types)
  with order have "rs = []" by simp
  with detector have "anonymizeText cfg analyzer anonymizer m (text_of segs)
      = (Inr (text_of segs, False), [])"
    by (simp add: anonymizeText_nothing)
  moreover have "deanonymizeText [] (anonymized_text segs) = Some (anonymized_text segs)"
    by (simp add: deanonymizeText_def)
  ultimately show ?thesis using True no_spans_no_change [OF True] by auto
next
  case False
  let ?T = "text_of segs"
  let ?ae = "anonymizedEntities items"
  let ?m = "buildEntityMapping ?T items rs []"
  let ?es = "sort_by anonymized_compare (map_values ?m)"
  from False substituted have items: "items \<noteq> []"
    and answer: "anonymizer (snd (service_urls cfg) @ ''/anonymize'') ?T rs
                   = Inr \<lparr>resp_text = anonymized_text segs, resp_items = Some items\<rparr>"
    by simp_all
  have sp: "(ar_entity_type r, substring ?T (ar_start r) (ar_end r)) \<in> set (detected segs)"
    if "r \<in> set rs" for r
    using that order spans_of_segments by blast
  from False obtain ty s where "(ty, s) \<in> set (detected segs)" by (cases "detected segs") auto
  with detected_has_span order have rs: "rs \<noteq> []" by fastforce
  have dash: "\<forall>r \<in> set rs. CHR ''-'' \<notin> set (ar_entity_type r)"
  proof
    fix r
    assume "r \<in> set rs"
    from sp [OF this] literal have "literal_type (ar_entity_type r)" by force
    then show "CHR ''-'' \<notin> set (ar_entity_type r)" by (rule literal_type_no_dash)
  qed
  have frag: "\<forall>r \<in> set rs. \<not> fragment ?T r"
  proof
    fix r
    assume "r \<in> set rs"
    from sp [OF this] names
    have "ar_entity_type r = ''PERSON'' \<longrightarrow> 3 \<le> length (substring ?T (ar_start r) (ar_end r))"
      by force
    then show "\<not> fragment ?T r" by (auto simp: fragment_def)
  qed
  have entries: "\<forall>e \<in> set ?es. (entityType e, original e) \<in> set (detected segs)
                    \<and> anonymized e = new_value (entityType e)"
  proof
    fix e
    assume "e \<in> set ?es"
    then have "e \<in> set (map_values ?m)" by (simp add: set_sort_by)
    with values_buildEntityMapping [of ?T items rs "[]"] obtain r where
      r: "r \<in> set (map_values (processedEntities rs))" "e = entry_of ?T ?ae r"
      by auto
    from r(1) processedEntities_values have "r \<in> set rs" by blast
    from sp [OF this]
    have d: "(ar_entity_type r, substring ?T (ar_start r) (ar_end r)) \<in> set (detected segs)" .
    with resolved have "anonymizedValue_of ?ae (ar_entity_type r) = new_value (ar_entity_type r)"
      by force
    with d r(2) show "(entityType e, original e) \<in> set (detected segs)
                    \<and> anonymized e = new_value (entityType e)"
      by (simp add: entry_of_def)
  qed
  have all: "\<forall>ts \<in> set (detected segs). \<exists>e \<in> set ?es. entityType e = fst ts"
  proof
    fix ts
    assume "ts \<in> set (detected segs)"
    then have "(fst ts, snd ts) \<in> set (detected segs)" by simp
    with detected_has_span order obtain r where "r \<in> set rs" "ar_entity_type r = fst ts"
      by blast
    with table_covers [OF items dash frag, of r] show "\<exists>e \<in> set ?es. entityType e = fst ts"
      by (simp add: set_sort_by)
  qed
  from all \<open>(ty, s) \<in> set (detected segs)\<close> have "?es \<noteq> []" by force
  then have table: "?m \<noteq> []" by (auto simp: sort_by_Nil)
  from anonymizeText_success [of analyzer cfg "?T" rs anonymizer
      "\<lparr>resp_text = anonymized_text segs, resp_items = Some items\<rparr>" m,
      OF detector rs answer]
  have run: "anonymizeText cfg analyzer anonymizer m ?T = (Inr (anonymized_text segs, True), ?m)"
    using table by simp
  from literal free same verbatim entries all
  have "restore_all ?es (anonymized_text segs) = Some ?T"
    by (rule deanonymize_tokens)
  with table have "deanonymizeText ?m (anonymized_text segs) = Some ?T"
    by (simp add: deanonymizeText_def)
  with run False show ?thesis by simp
qed

theorem round_trip_witness:
  "text_of repeated_segments = ''John Doe met John Doe in Paris; see http://a.io/?p=$5.''
   \<and> anonymized_text repeated_segments = ''[PERSON] met [PERSON] in [LOCATION]; see [URL].''
   \<and> rev (spans_from 0 repeated_segments)
       = [mk_span ''URL'' 36 53 (3 / 5), mk_span ''LOCATION'' 25 30 (17 / 20),
          mk_span ''PERSON'' 13 21 (4 / 5), mk_span ''PERSON'' 0 8 (17 / 20)]
   \<and> rev (items_of repeated_segments)
       = [mk_item ''URL'' ''[URL]'', mk_item ''LOCATION'' ''[LOCATION]'',
          mk_item ''PERSON'' ''[PERSON]'', mk_item ''PERSON'' ''[PERSON]'']
   \<and> (\<exists>m'. anonymizeText no_config (constant_analyzer (rev (spans_from 0 repeated_segments)))
               (constant_anonymizer (anonymized_text repeated_segments)
                  (rev (items_of repeated_segments)))
               [] (text_of repeated_segments)
             = (Inr (anonymized_text repeated_segments, True), m')
           \<and> deanonymizeText m' (anonymized_text repeated_segments)
               = Some (text_of repeated_segments))"
proof -
  let ?segs = repeated_segments
  let ?rs = "rev (spans_from 0 repeated_segments)"
  let ?items = "rev (items_of repeated_segments)"
  have a: "text_of ?segs = ''John Doe met John Doe in Paris; see http://a.io/?p=$5.''"
    by code_simp
  have b: "anonymized_text ?segs = ''[PERSON] met [PERSON] in [LOCATION]; see [URL].''"
    by code_simp
  have c: "?rs = [mk_span ''URL'' 36 53 (3 / 5), mk_span ''LOCATION'' 25 30 (17 / 20),
          mk_span ''PERSON'' 13 21 (4 / 5), mk_span ''PERSON'' 0 8 (17 / 20)]"
    by code_simp
  have d: "?items = [mk_item ''URL'' ''[URL]'', mk_item ''LOCATION'' ''[LOCATION]'',
          mk_item ''PERSON'' ''[PERSON]'', mk_item ''PERSON'' ''[PERSON]'']"
    by code_simp
  have some: "(detected ?segs \<noteq> []) = True" by code_simp
  have literal: "\<forall>ts \<in> set (detected ?segs). literal_type (fst ts)" by code_simp
  have free: "\<forall>ts \<in> set (detected ?segs). \<not> js_includes (text_of ?segs) (new_value (fst ts))"
    by code_simp
  have same: "\<forall>ts \<in> set (detected ?segs). \<forall>ts' \<in> set (detected ?segs).
                 new_value (fst ts) = new_value (fst ts') \<longrightarrow> snd ts = snd ts'"
    by code_simp
  have names: "\<forall>ts \<in> set (detected ?segs). fst ts = ''PERSON'' \<longrightarrow> 3 \<le> length (snd ts)"
    by code_simp
  have verbatim: "\<forall>ts \<in> set (detected ?segs). \<not> dollar_pattern (snd ts)" by code_simp
  have detector: "constant_analyzer ?rs (fst (service_urls no_config) @ ''/analyze'') (text_of ?segs)
      = Inr (Some ?rs)"
    by (simp add: constant_analyzer_def)
  have order: "set ?rs = set (spans_from 0 ?segs)" by simp
  have "?items \<noteq> []" by code_simp
  then have substituted: "detected ?segs \<noteq> [] \<longrightarrow>
      ?items \<noteq> []
      \<and> constant_anonymizer (anonymized_text ?segs) ?items
            (snd (service_urls no_config) @ ''/anonymize'') (text_of ?segs) ?rs
          = Inr \<lparr>resp_text = anonymized_text ?segs, resp_items = Some ?items\<rparr>"
    by (simp add: constant_anonymizer_def)
  have resolved: "\<forall>ts \<in> set (detected ?segs).
      anonymizedValue_of (anonymizedEntities ?items) (fst ts) = new_value (fst ts)"
    by code_simp
  note th = round_trip [of ?segs "constant_analyzer ?rs" no_config ?rs ?items
      "constant_anonymizer (anonymized_text ?segs) ?items" "[]",
      OF literal free same names verbatim detector order substituted resolved]
  from a b c d th show ?thesis unfolding some by (intro conjI)
qed

text \<open>
  C8 at a failing input: the replacement text of \<^verbatim>\<open>String.prototype.replace\<close> is not taken
  literally. The address \<^verbatim>\<open>http://a.io/?x=$&y=1\<close> contains \<^verbatim>\<open>$&\<close>, which stands for the
  matched text, so the placeholder \<^verbatim>\<open>[URL]\<close> is not replaced by the original value but by
  \<^verbatim>\<open>http://a.io/?x=[URL]y=1\<close>. The table has the one entry, its placeholder occurs once, and
  the pattern is escaped as it should be.
\<close>

theorem dollar_in_original:
  "text_of link_segments = link_text
   \<and> fst (anonymizeText no_config (constant_analyzer (spans_from 0 link_segments))
            (substituting_anonymizer link_segments) [] link_text)
       = Inr (''See [URL] now'', True)
   \<and> snd (anonymizeText no_config (constant_analyzer (spans_from 0 link_segments))
            (substituting_anonymizer link_segments) [] link_text)
       = [(''URL-4-24'', mk_entity ''http://a.io/?x=$&y=1'' ''[URL]'' ''URL'' 4 24)]
   \<and> regex_literal (escape_regex ''[URL]'') = Some ''[URL]''
   \<and> deanonymizeText [(''URL-4-24'', mk_entity ''http://a.io/?x=$&y=1'' ''[URL]'' ''URL'' 4 24)]
        ''See [URL] now''
       = Some ''See http://a.io/?x=[URL]y=1 now''
   \<and> ''See http://a.io/?x=[URL]y=1 now'' \<noteq> link_text"
  by code_simp

end
